theory Spec2Isabelle
  imports Main "HOL-Library.Word"
begin

section \<open>The virtual-memory simulator of \<^verbatim>\<open>pa3.c\<close>\<close>

text \<open>
  The file \<^verbatim>\<open>pa3.c\<close> implements six entry points of a two-level paging simulator
  over global state: the translation cache \<^verbatim>\<open>tlb\<close>, the table \<^verbatim>\<open>mapcounts\<close>, the
  ready queue \<^verbatim>\<open>processes\<close>, and the pointers \<^verbatim>\<open>current\<close> and \<^verbatim>\<open>ptbr\<close>.
  Every \<^verbatim>\<open>unsigned int\<close> of the source is a 32-bit word here, so that
  \<^verbatim>\<open>mapcounts[pfn]--\<close> on a zero counter wraps around as it does in C.
\<close>

subsection \<open>Constants of the framework header\<close>

text \<open>
  Modelled from the spec: \<^verbatim>\<open>vm.h\<close> is not among the sources. The spec names the
  permissions none, read, write and read-write; the source adds \<^verbatim>\<open>ACCESS_READ\<close> and
  \<^verbatim>\<open>ACCESS_WRITE\<close> to form read-write and rewrites the literal 2 of a write probe
  into 3, which fixes read as 1 and write as 2.
\<close>

definition ACCESS_NONE :: "32 word" where
  "ACCESS_NONE = 0"

definition ACCESS_READ :: "32 word" where
  "ACCESS_READ = 1"

definition ACCESS_WRITE :: "32 word" where
  "ACCESS_WRITE = 2"

text \<open>
  The sizes \<^verbatim>\<open>NR_PTES_PER_PAGE\<close> and \<^verbatim>\<open>NR_PAGEFRAMES\<close> of the same header are
  parameters of the operations below (written \<open>N\<close> and \<open>F\<close>); the size
  \<^verbatim>\<open>1UL << (PTES_PER_PAGE_SHIFT * 2)\<close> of the translation cache is the length of
  the list that models the array \<^verbatim>\<open>tlb\<close>.
\<close>

subsection \<open>Data model\<close>

record pte =
  pte_valid :: bool
  pte_rw :: "32 word"
  pte_pfn :: "32 word"
  pte_private :: "32 word"

record tlb_entry =
  tlb_valid :: bool
  tlb_rw :: "32 word"
  tlb_vpn :: "32 word"
  tlb_pfn :: "32 word"

text \<open>
  \<^verbatim>\<open>struct pte_directory\<close> is an array of PTEs; \<^verbatim>\<open>struct pagetable\<close> is an array
  of pointers to directories, \<open>None\<close> being the null pointer. A directory is
  reached from one slot of one page table only (every directory comes from its
  own \<^verbatim>\<open>malloc\<close> and its address is stored once), so the slot holds the
  directory itself.
\<close>

type_synonym pte_directory = "pte list"

type_synonym pagetable = "pte_directory option list"

text \<open>
  A pointer to a \<^verbatim>\<open>struct list_head\<close> is the address of the queue's head
  \<^verbatim>\<open>processes\<close>, the address of the \<^verbatim>\<open>list\<close> member of the process at an address
  of the store, or a value that is neither (null, or whatever else a block of
  memory holds): \<open>Wild\<close>. The member \<^verbatim>\<open>list\<close> of a process is the field
  \<open>list_node\<close>.
\<close>

datatype link = Head | Node nat | Wild

record list_head =
  "next" :: link
  prev :: link

record process =
  pid :: "32 word"
  pagetable :: pagetable
  list_node :: list_head

text \<open>
  Process structures live in a store indexed by address. The ready queue is
  the ring of list nodes that starts and ends at \<^verbatim>\<open>processes\<close>; \<^verbatim>\<open>current\<close> is an
  address, and \<^verbatim>\<open>ptbr\<close> is the address of the process whose \<^verbatim>\<open>pagetable\<close> member
  it points at.
\<close>

record vm_state =
  procs :: "process list"
  processes :: list_head
  current :: nat
  ptbr :: nat
  tlb :: "tlb_entry list"
  mapcounts :: "32 word list"

text \<open>
  An access outside an array, an access through a pointer that addresses no
  process and no list node, and a division by zero are undefined behaviour in
  C; the model returns them as values, and so it does a loop that never ends.
\<close>

datatype fault = OutOfBounds | BadPointer | DivisionByZero | NonTermination

subsection \<open>\<^verbatim>\<open>lookup_tlb\<close>\<close>

text \<open>
  The loop visits the entries in index order and returns at the first
  match. \<open>Some pfn\<close> is the return value \<^verbatim>\<open>true\<close> with \<^verbatim>\<open>*pfn\<close> set, \<open>None\<close> is
  \<^verbatim>\<open>false\<close>.
\<close>

fun lookup_tlb :: "tlb_entry list \<Rightarrow> 32 word \<Rightarrow> 32 word \<Rightarrow> 32 word option" where
  "lookup_tlb [] vpn rw = None"
| "lookup_tlb (e # es) vpn rw =
     (if tlb_valid e \<and> tlb_vpn e = vpn \<and> tlb_rw e = (if rw = 2 then 3 else rw)
      then Some (tlb_pfn e)
      else lookup_tlb es vpn rw)"

subsection \<open>\<^verbatim>\<open>insert_tlb\<close>\<close>

text \<open>The first loop: update the first valid entry for \<open>vpn\<close>, if there is one.\<close>

fun tlb_overwrite :: "tlb_entry list \<Rightarrow> 32 word \<Rightarrow> 32 word \<Rightarrow> 32 word \<Rightarrow> tlb_entry list option" where
  "tlb_overwrite [] vpn rw pfn = None"
| "tlb_overwrite (e # es) vpn rw pfn =
     (if tlb_vpn e = vpn \<and> tlb_valid e
      then Some (e\<lparr>tlb_rw := rw, tlb_pfn := pfn\<rparr> # es)
      else map_option ((#) e) (tlb_overwrite es vpn rw pfn))"

text \<open>The second loop: fill the first invalid entry, if there is one.\<close>

fun tlb_fill :: "tlb_entry list \<Rightarrow> 32 word \<Rightarrow> 32 word \<Rightarrow> 32 word \<Rightarrow> tlb_entry list option" where
  "tlb_fill [] vpn rw pfn = None"
| "tlb_fill (e # es) vpn rw pfn =
     (if \<not> tlb_valid e
      then Some (e\<lparr>tlb_valid := True, tlb_rw := rw, tlb_vpn := vpn, tlb_pfn := pfn\<rparr> # es)
      else map_option ((#) e) (tlb_fill es vpn rw pfn))"

definition insert_tlb :: "tlb_entry list \<Rightarrow> 32 word \<Rightarrow> 32 word \<Rightarrow> 32 word \<Rightarrow> tlb_entry list" where
  "insert_tlb t vpn rw pfn =
     (case tlb_overwrite t vpn rw pfn of
        Some t' \<Rightarrow> t'
      | None \<Rightarrow> (case tlb_fill t vpn rw pfn of Some t' \<Rightarrow> t' | None \<Rightarrow> t))"

subsection \<open>The frame scan\<close>

text \<open>
  \<^verbatim>\<open>for(int i=0;i<NR_PAGEFRAMES;i++) if(!mapcounts[i])\<close>, the loop of both
  \<^verbatim>\<open>alloc_page\<close> and \<^verbatim>\<open>handle_page_fault\<close>: the first index below \<open>F\<close> whose
  counter is zero, scanning upwards from \<open>i\<close>.
\<close>

function find_free_frame :: "nat \<Rightarrow> 32 word list \<Rightarrow> nat \<Rightarrow> fault + nat option" where
  "find_free_frame F mc i =
     (if i < F
      then (if i < length mc
            then (if mc ! i = 0 then Inr (Some i) else find_free_frame F mc (Suc i))
            else Inl OutOfBounds)
      else Inr None)"
  by pat_completeness auto
termination
  by (relation "measure (\<lambda>(F, mc, i). F - i)") auto

subsection \<open>\<^verbatim>\<open>alloc_page\<close>\<close>

text \<open>
  \<open>junk\<close> is what the block returned by \<^verbatim>\<open>malloc\<close> holds, read as a directory:
  the source does not clear it, so the entries it does not write keep that
  content. The quotient and the remainder of an \<^verbatim>\<open>unsigned int\<close> by \<open>N\<close> are
  taken unsigned and stored in an \<^verbatim>\<open>int\<close>; \<open>N\<close> is an \<^verbatim>\<open>int\<close> constant, so an
  index inside an array of \<open>N\<close> elements is the same number either way. The
  result \<open>-1\<close> is the value \<^verbatim>\<open>-1\<close> returned as \<^verbatim>\<open>unsigned int\<close>.
\<close>

definition alloc_page ::
  "nat \<Rightarrow> nat \<Rightarrow> pte_directory \<Rightarrow> vm_state \<Rightarrow> 32 word \<Rightarrow> 32 word \<Rightarrow> fault + (32 word \<times> vm_state)" where
  "alloc_page N F junk s vpn rw =
     (let outer_pte_index = unat vpn div N;
          pte_index = unat vpn mod N
      in if N = 0 then Inl DivisionByZero
         else if \<not> ptbr s < length (procs s) then Inl BadPointer
         else let pt = pagetable (procs s ! ptbr s)
           in if \<not> outer_pte_index < length pt then Inl OutOfBounds
              else case find_free_frame F (mapcounts s) 0 of
                     Inl e \<Rightarrow> Inl e
                   | Inr None \<Rightarrow> Inr (- 1, s)
                   | Inr (Some i) \<Rightarrow>
                       let d = (case pt ! outer_pte_index of None \<Rightarrow> junk | Some d \<Rightarrow> d)
                       in if \<not> pte_index < length d then Inl OutOfBounds
                          else let cur_pte = (d ! pte_index)
                                     \<lparr>pte_valid := True, pte_rw := rw,
                                      pte_private := rw, pte_pfn := of_nat i\<rparr>;
                                   pt' = pt[outer_pte_index := Some (d[pte_index := cur_pte])]
                            in Inr (of_nat i,
                                 s\<lparr>procs := (procs s)[ptbr s := (procs s ! ptbr s)\<lparr>pagetable := pt'\<rparr>],
                                   mapcounts := (mapcounts s)[i := mapcounts s ! i + 1]\<rparr>))"

subsection \<open>\<^verbatim>\<open>free_page\<close>\<close>

text \<open>
  The test \<^verbatim>\<open>!cur_pte\<close> of the source is on the address of an array element
  of a directory that is not null at that point, so it never holds: only a
  null directory returns early. \<^verbatim>\<open>int pfn\<close> reads the field as a signed
  integer.
\<close>

definition tlb_invalidate :: "32 word \<Rightarrow> tlb_entry \<Rightarrow> tlb_entry" where
  "tlb_invalidate vpn e =
     (if tlb_vpn e = vpn \<and> tlb_valid e
      then e\<lparr>tlb_valid := False, tlb_rw := - 1, tlb_vpn := - 1, tlb_pfn := - 1\<rparr>
      else e)"

definition free_page :: "nat \<Rightarrow> vm_state \<Rightarrow> 32 word \<Rightarrow> fault + vm_state" where
  "free_page N s vpn =
     (let outer_pte_index = unat vpn div N;
          pte_index = unat vpn mod N
      in if N = 0 then Inl DivisionByZero
         else if \<not> ptbr s < length (procs s) then Inl BadPointer
         else let pt = pagetable (procs s ! ptbr s)
           in if \<not> outer_pte_index < length pt then Inl OutOfBounds
              else case pt ! outer_pte_index of
                     None \<Rightarrow> Inr s
                   | Some d \<Rightarrow>
                       if \<not> pte_index < length d then Inl OutOfBounds
                       else let pfn = sint (pte_pfn (d ! pte_index));
                                cur_pte = (d ! pte_index)
                                  \<lparr>pte_valid := False, pte_rw := 0, pte_pfn := 0, pte_private := 0\<rparr>;
                                pt' = pt[outer_pte_index := Some (d[pte_index := cur_pte])]
                         in if pfn < 0 \<or> \<not> nat pfn < length (mapcounts s) then Inl OutOfBounds
                            else Inr (s\<lparr>procs := (procs s)[ptbr s := (procs s ! ptbr s)\<lparr>pagetable := pt'\<rparr>],
                                        mapcounts := (mapcounts s)[nat pfn := mapcounts s ! nat pfn - 1],
                                        tlb := map (tlb_invalidate vpn) (tlb s)\<rparr>))"

subsection \<open>\<^verbatim>\<open>handle_page_fault\<close>\<close>

definition handle_page_fault ::
  "nat \<Rightarrow> nat \<Rightarrow> vm_state \<Rightarrow> 32 word \<Rightarrow> 32 word \<Rightarrow> fault + (bool \<times> vm_state)" where
  "handle_page_fault N F s vpn rw =
     (let outer_pte_index = unat vpn div N;
          pte_index = unat vpn mod N
      in if N = 0 then Inl DivisionByZero
         else if \<not> ptbr s < length (procs s) then Inl BadPointer
         else let pt = pagetable (procs s ! ptbr s)
           in if \<not> outer_pte_index < length pt then Inl OutOfBounds
              else case pt ! outer_pte_index of
                     None \<Rightarrow> Inr (False, s)
                   | Some d \<Rightarrow>
                       if \<not> pte_index < length d then Inl OutOfBounds
                       else let cur_pte = d ! pte_index
                         in if pte_valid cur_pte \<and> rw = ACCESS_WRITE
                               \<and> pte_private cur_pte = ACCESS_WRITE + ACCESS_READ
                               \<and> pte_rw cur_pte = ACCESS_READ
                            then if \<not> unat (pte_pfn cur_pte) < length (mapcounts s) then Inl OutOfBounds
                                 else if mapcounts s ! unat (pte_pfn cur_pte) = 1
                                 then let pt' = pt[outer_pte_index := Some (d[pte_index :=
                                                  cur_pte\<lparr>pte_rw := ACCESS_READ + ACCESS_WRITE\<rparr>])]
                                   in Inr (True,
                                        s\<lparr>procs := (procs s)[ptbr s := (procs s ! ptbr s)\<lparr>pagetable := pt'\<rparr>]\<rparr>)
                                 else case find_free_frame F (mapcounts s) 0 of
                                        Inl e \<Rightarrow> Inl e
                                      | Inr None \<Rightarrow> Inr (False, s)
                                      | Inr (Some i) \<Rightarrow>
                                          let old = unat (pte_pfn cur_pte);
                                              mc1 = (mapcounts s)[old := mapcounts s ! old - 1];
                                              pt' = pt[outer_pte_index := Some (d[pte_index :=
                                                      cur_pte\<lparr>pte_pfn := of_nat i,
                                                              pte_rw := ACCESS_READ + ACCESS_WRITE\<rparr>])]
                                          in Inr (True,
                                               s\<lparr>procs := (procs s)[ptbr s := (procs s ! ptbr s)\<lparr>pagetable := pt'\<rparr>],
                                                 mapcounts := mc1[i := mc1 ! i + 1]\<rparr>)
                            else Inr (False, s))"

subsection \<open>The ready queue\<close>

text \<open>
  Modelled from the spec: \<^verbatim>\<open>list_head.h\<close> is not among the sources. The spec
  calls the ready queue an intrusive linked list with raw links, and the source
  uses the names of the list header of Linux, so the operations are taken as
  that header has them: a ring of nodes doubly linked through \<^verbatim>\<open>next\<close> and
  \<^verbatim>\<open>prev\<close>, every operation reading and writing the links of the nodes it is
  given. Reading or writing the node behind a pointer:
\<close>

definition node_at :: "vm_state \<Rightarrow> link \<Rightarrow> fault + list_head" where
  "node_at s l =
     (case l of
        Head \<Rightarrow> Inr (processes s)
      | Node a \<Rightarrow> if a < length (procs s) then Inr (list_node (procs s ! a)) else Inl BadPointer
      | Wild \<Rightarrow> Inl BadPointer)"

definition put_node :: "vm_state \<Rightarrow> link \<Rightarrow> list_head \<Rightarrow> fault + vm_state" where
  "put_node s l h =
     (case l of
        Head \<Rightarrow> Inr (s\<lparr>processes := h\<rparr>)
      | Node a \<Rightarrow>
          if a < length (procs s)
          then Inr (s\<lparr>procs := (procs s)[a := (procs s ! a)\<lparr>list_node := h\<rparr>]\<rparr>)
          else Inl BadPointer
      | Wild \<Rightarrow> Inl BadPointer)"

text \<open>The assignments \<^verbatim>\<open>l->next = v\<close> and \<^verbatim>\<open>l->prev = v\<close>.\<close>

definition set_next :: "vm_state \<Rightarrow> link \<Rightarrow> link \<Rightarrow> fault + vm_state" where
  "set_next s l v =
     (case node_at s l of Inl e \<Rightarrow> Inl e | Inr h \<Rightarrow> put_node s l (h\<lparr>next := v\<rparr>))"

definition set_prev :: "vm_state \<Rightarrow> link \<Rightarrow> link \<Rightarrow> fault + vm_state" where
  "set_prev s l v =
     (case node_at s l of Inl e \<Rightarrow> Inl e | Inr h \<Rightarrow> put_node s l (h\<lparr>prev := v\<rparr>))"

text \<open>
  \<^verbatim>\<open>list_add_tail(new, head)\<close> links \<^verbatim>\<open>new\<close> between \<^verbatim>\<open>head->prev\<close> and \<^verbatim>\<open>head\<close>:
  \<^verbatim>\<open>next->prev = new; new->next = next; new->prev = prev; prev->next = new\<close>.
\<close>

definition list_add :: "vm_state \<Rightarrow> link \<Rightarrow> link \<Rightarrow> link \<Rightarrow> fault + vm_state" where
  "list_add s new pv nx =
     (case set_prev s nx new of
        Inl e \<Rightarrow> Inl e
      | Inr s1 \<Rightarrow>
          (case set_next s1 new nx of
             Inl e \<Rightarrow> Inl e
           | Inr s2 \<Rightarrow>
               (case set_prev s2 new pv of
                  Inl e \<Rightarrow> Inl e
                | Inr s3 \<Rightarrow> set_next s3 pv new)))"

definition list_add_tail :: "vm_state \<Rightarrow> link \<Rightarrow> link \<Rightarrow> fault + vm_state" where
  "list_add_tail s new head =
     (case node_at s head of Inl e \<Rightarrow> Inl e | Inr h \<Rightarrow> list_add s new (prev h) head)"

text \<open>
  \<^verbatim>\<open>list_del(entry)\<close> reads the links of \<^verbatim>\<open>entry\<close> and joins its neighbours:
  \<^verbatim>\<open>next->prev = prev; prev->next = next\<close>. What the header then leaves in the
  links of \<^verbatim>\<open>entry\<close> itself (the poison values of Linux, or the links as they
  are) is the parameter \<open>poison\<close>, a function of the node's address and of its
  links.
\<close>

definition list_del ::
  "(link \<Rightarrow> list_head \<Rightarrow> list_head) \<Rightarrow> vm_state \<Rightarrow> link \<Rightarrow> fault + vm_state" where
  "list_del poison s entry =
     (case node_at s entry of
        Inl e \<Rightarrow> Inl e
      | Inr h \<Rightarrow>
          (case set_prev s (next h) (prev h) of
             Inl e \<Rightarrow> Inl e
           | Inr s1 \<Rightarrow>
               (case set_next s1 (prev h) (next h) of
                  Inl e \<Rightarrow> Inl e
                | Inr s2 \<Rightarrow>
                    (case node_at s2 entry of
                       Inl e \<Rightarrow> Inl e
                     | Inr h2 \<Rightarrow> put_node s2 entry (poison entry h2)))))"

text \<open>
  \<^verbatim>\<open>list_for_each_entry\<close> with the \<^verbatim>\<open>break\<close> at the first process whose pid is
  the one asked for: the walk starts at \<^verbatim>\<open>processes.next\<close>, follows \<^verbatim>\<open>next\<close> and
  ends at \<^verbatim>\<open>processes\<close>. The state does not change during the walk, so a walk
  that has visited more nodes than the store has processes has visited one of
  them twice and never ends: with \<open>n\<close> the number of visits still allowed, the
  walk is started with one more than the number of processes.
\<close>

fun find_pid :: "nat \<Rightarrow> vm_state \<Rightarrow> link \<Rightarrow> 32 word \<Rightarrow> fault + nat option" where
  "find_pid 0 s pos p = Inl NonTermination"
| "find_pid (Suc n) s pos p =
     (case pos of
        Head \<Rightarrow> Inr None
      | Wild \<Rightarrow> Inl BadPointer
      | Node a \<Rightarrow>
          if \<not> a < length (procs s) then Inl BadPointer
          else if pid (procs s ! a) = p then Inr (Some a)
          else find_pid n s (next (list_node (procs s ! a))) p)"

subsection \<open>\<^verbatim>\<open>switch_process\<close>\<close>

definition tlb_flush :: "tlb_entry \<Rightarrow> tlb_entry" where
  "tlb_flush e = e\<lparr>tlb_valid := False, tlb_rw := - 1, tlb_vpn := - 1, tlb_pfn := - 1\<rparr>"

text \<open>
  The inner loop of the fork over one directory of the parent: downgrade a
  read-write entry, copy the entry to the child, count the frame of a valid
  entry. The result is the parent's directory, the child's directory and the
  counters. Both loops run over \<^verbatim>\<open>NR_PTES_PER_PAGE\<close> indices, the declared size
  of the arrays they walk.
\<close>

definition cow_downgrade :: "pte \<Rightarrow> pte" where
  "cow_downgrade p =
     (if pte_rw p = ACCESS_READ + ACCESS_WRITE then p\<lparr>pte_rw := ACCESS_READ\<rparr> else p)"

fun fork_ptes :: "pte list \<Rightarrow> 32 word list \<Rightarrow> fault + (pte list \<times> pte list \<times> 32 word list)" where
  "fork_ptes [] mc = Inr ([], [], mc)"
| "fork_ptes (p # ps) mc =
     (let p' = cow_downgrade p
      in if pte_valid p'
         then (if \<not> unat (pte_pfn p') < length mc then Inl OutOfBounds
               else case fork_ptes ps (mc[unat (pte_pfn p') := mc ! unat (pte_pfn p') + 1]) of
                      Inl e \<Rightarrow> Inl e
                    | Inr (ps', cs, mc') \<Rightarrow> Inr (p' # ps', p' # cs, mc'))
         else (case fork_ptes ps mc of
                 Inl e \<Rightarrow> Inl e
               | Inr (ps', cs, mc') \<Rightarrow> Inr (p' # ps', p' # cs, mc')))"

text \<open>
  The outer loop. The second argument is the outer table of the child as
  \<^verbatim>\<open>malloc\<close> returned it: a slot whose directory the parent lacks is never
  written and keeps that content.
\<close>

fun fork_outer ::
  "pagetable \<Rightarrow> pagetable \<Rightarrow> 32 word list \<Rightarrow> fault + (pagetable \<times> pagetable \<times> 32 word list)" where
  "fork_outer [] js mc = Inr ([], js, mc)"
| "fork_outer (d # ds) [] mc = Inl OutOfBounds"
| "fork_outer (None # ds) (j # js) mc =
     (case fork_outer ds js mc of
        Inl e \<Rightarrow> Inl e
      | Inr (ds', cs, mc') \<Rightarrow> Inr (None # ds', j # cs, mc'))"
| "fork_outer (Some d # ds) (j # js) mc =
     (case fork_ptes d mc of
        Inl e \<Rightarrow> Inl e
      | Inr (d', c, mc1) \<Rightarrow>
          (case fork_outer ds js mc1 of
             Inl e \<Rightarrow> Inl e
           | Inr (ds', cs, mc') \<Rightarrow> Inr (Some d' # ds', Some c # cs, mc')))"

text \<open>
  What the outer loop leaves in a slot of the child: the copy of the parent's
  directory, or the old content of the slot where the parent has none.
\<close>

definition child_slot :: "pte_directory option \<Rightarrow> pte_directory option \<Rightarrow> pte_directory option" where
  "child_slot d j = (case d of None \<Rightarrow> j | Some ps \<Rightarrow> Some (map cow_downgrade ps))"

text \<open>
  \<open>junk\<close> is what the block returned by \<^verbatim>\<open>malloc\<close> for the child holds, read as
  a process: the source writes the pid and the page table of the child and
  leaves its \<^verbatim>\<open>list\<close> member as the block has it. The child gets the first
  address the store does not use yet.
\<close>

definition switch_process ::
  "(link \<Rightarrow> list_head \<Rightarrow> list_head) \<Rightarrow> process \<Rightarrow> vm_state \<Rightarrow> 32 word \<Rightarrow> fault + vm_state" where
  "switch_process poison junk s p =
     (let s1 = s\<lparr>tlb := map tlb_flush (tlb s)\<rparr>
      in case find_pid (Suc (length (procs s1))) s1 (next (processes s1)) p of
           Inl e \<Rightarrow> Inl e
         | Inr found \<Rightarrow>
             (case (case found of
                      None \<Rightarrow> Inr s1
                    | Some a \<Rightarrow>
                        (case list_add_tail s1 (Node (current s1)) Head of
                           Inl e \<Rightarrow> Inl e
                         | Inr s' \<Rightarrow> Inr (s'\<lparr>current := a, ptbr := a\<rparr>))) of
                Inl e \<Rightarrow> Inl e
              | Inr s2 \<Rightarrow>
                  if \<not> current s2 < length (procs s2) then Inl BadPointer
                  else if pid (procs s2 ! current s2) = p
                  then list_del poison s2 (Node (current s2))
                  else if \<not> ptbr s2 < length (procs s2) then Inl BadPointer
                  else (case fork_outer (pagetable (procs s2 ! ptbr s2)) (pagetable junk)
                               (mapcounts s2) of
                          Inl e \<Rightarrow> Inl e
                        | Inr (pt', cpt, mc') \<Rightarrow>
                            let child = junk\<lparr>pid := p, pagetable := cpt\<rparr>;
                                parent = (procs s2 ! ptbr s2)\<lparr>pagetable := pt'\<rparr>;
                                s3 = s2\<lparr>procs := list_update (procs s2) (ptbr s2) parent @ [child],
                                        mapcounts := mc'\<rparr>
                            in (case list_add_tail s3 (Node (current s2)) Head of
                                  Inl e \<Rightarrow> Inl e
                                | Inr s4 \<Rightarrow>
                                    Inr (s4\<lparr>current := length (procs s2),
                                            ptbr := length (procs s2)\<rparr>)))))"

subsection \<open>Counting mappings\<close>

definition ptes_of :: "pagetable \<Rightarrow> pte list" where
  "ptes_of pt = concat (map (\<lambda>d. case d of None \<Rightarrow> [] | Some ps \<Rightarrow> ps) pt)"

definition maps_frame :: "32 word \<Rightarrow> pte \<Rightarrow> bool" where
  "maps_frame f p = (pte_valid p \<and> pte_pfn p = f)"

text \<open>
  The number of valid PTEs of a directory, of a page table and of all
  processes that map frame \<open>f\<close>.
\<close>

definition dir_mappings :: "32 word \<Rightarrow> pte_directory option \<Rightarrow> nat" where
  "dir_mappings f d = (case d of None \<Rightarrow> 0 | Some ps \<Rightarrow> length (filter (maps_frame f) ps))"

definition nr_mappings :: "pagetable \<Rightarrow> 32 word \<Rightarrow> nat" where
  "nr_mappings pt f = length (filter (maps_frame f) (ptes_of pt))"

definition total_mappings :: "process list \<Rightarrow> 32 word \<Rightarrow> nat" where
  "total_mappings ps f = sum_list (map (\<lambda>p. nr_mappings (pagetable p) f) ps)"

definition refcount_inv :: "vm_state \<Rightarrow> bool" where
  "refcount_inv s =
     list_all (\<lambda>f. unat (mapcounts s ! f) = total_mappings (procs s) (of_nat f))
       [0 ..< length (mapcounts s)]"

text \<open>The PTE that a virtual page number selects in a page table, if its directory is there.\<close>

definition pte_at :: "nat \<Rightarrow> pagetable \<Rightarrow> 32 word \<Rightarrow> pte option" where
  "pte_at N pt vpn =
     (if unat vpn div N < length pt
      then (case pt ! (unat vpn div N) of
              None \<Rightarrow> None
            | Some d \<Rightarrow> if unat vpn mod N < length d then Some (d ! (unat vpn mod N)) else None)
      else None)"

text \<open>
  The shape the framework's declarations give the state: two \<^verbatim>\<open>int\<close>
  constants \<open>N\<close> and \<open>F\<close>, \<open>N\<close> slots in every outer table and in every
  directory, \<open>F\<close> counters, \<^verbatim>\<open>current\<close> at a process of the store and \<^verbatim>\<open>ptbr\<close>
  at its page table.
\<close>

definition wf_pagetable :: "nat \<Rightarrow> pagetable \<Rightarrow> bool" where
  "wf_pagetable N pt =
     (length pt = N \<and> list_all (\<lambda>d. case d of None \<Rightarrow> True | Some ps \<Rightarrow> length ps = N) pt)"

definition wf_state :: "nat \<Rightarrow> nat \<Rightarrow> vm_state \<Rightarrow> bool" where
  "wf_state N F s =
     (0 < N \<and> N < 2 ^ 31 \<and> F < 2 ^ 31 \<and> length (mapcounts s) = F
      \<and> current s < length (procs s) \<and> ptbr s = current s
      \<and> list_all (\<lambda>p. wf_pagetable N (pagetable p)) (procs s))"

text \<open>
  The links of a node as the queue has them: \<open>chain s x q\<close> holds when the
  nodes of the processes \<open>q\<close> follow the node \<open>x\<close> in this order and the last
  of them is linked back to the head. The queue holds the processes \<open>q\<close> when
  they are distinct processes of the store and follow the head that way.
\<close>

definition next_of :: "vm_state \<Rightarrow> link \<Rightarrow> link" where
  "next_of s l =
     (case l of Head \<Rightarrow> next (processes s) | Node a \<Rightarrow> next (list_node (procs s ! a)) | Wild \<Rightarrow> Wild)"

definition prev_of :: "vm_state \<Rightarrow> link \<Rightarrow> link" where
  "prev_of s l =
     (case l of Head \<Rightarrow> prev (processes s) | Node a \<Rightarrow> prev (list_node (procs s ! a)) | Wild \<Rightarrow> Wild)"

fun chain :: "vm_state \<Rightarrow> link \<Rightarrow> nat list \<Rightarrow> bool" where
  "chain s x [] = (next_of s x = Head \<and> prev_of s Head = x)"
| "chain s x (a # as) = (next_of s x = Node a \<and> prev_of s (Node a) = x \<and> chain s (Node a) as)"

definition queue_is :: "vm_state \<Rightarrow> nat list \<Rightarrow> bool" where
  "queue_is s q =
     (distinct q \<and> list_all (\<lambda>a. a < length (procs s)) q \<and> chain s Head q)"

text \<open>
  A pointer that addresses a list node of the state, and what the operations on
  the queue leave alone: the page tables and pids of the processes, the
  counters, the cache and the two pointers.
\<close>

definition valid_link :: "vm_state \<Rightarrow> link \<Rightarrow> bool" where
  "valid_link s l = (case l of Head \<Rightarrow> True | Node a \<Rightarrow> a < length (procs s) | Wild \<Rightarrow> False)"

definition same_pages :: "vm_state \<Rightarrow> vm_state \<Rightarrow> bool" where
  "same_pages s s' =
     (map pagetable (procs s') = map pagetable (procs s) \<and> map pid (procs s') = map pid (procs s)
      \<and> mapcounts s' = mapcounts s \<and> tlb s' = tlb s
      \<and> current s' = current s \<and> ptbr s' = ptbr s)"

text \<open>
  Modelled from the spec: the bootstrap belongs to the framework, which is not
  among the sources. One process with pid 0 and an empty page table is current,
  the queue is empty, every cache entry is invalid and every frame is free;
  the links of the first process are the parameter \<open>l\<close>.
\<close>

definition init_state :: "nat \<Rightarrow> nat \<Rightarrow> nat \<Rightarrow> list_head \<Rightarrow> vm_state" where
  "init_state N F T l =
     \<lparr>procs = [\<lparr>pid = 0, pagetable = replicate N None, list_node = l\<rparr>],
      processes = \<lparr>next = Head, prev = Head\<rparr>, current = 0, ptbr = 0,
      tlb = replicate T \<lparr>tlb_valid = False, tlb_rw = 0, tlb_vpn = 0, tlb_pfn = 0\<rparr>,
      mapcounts = replicate F 0\<rparr>"

subsection \<open>Concrete inputs\<close>


definition empty_entry :: tlb_entry where
  "empty_entry = \<lparr>tlb_valid = False, tlb_rw = 0, tlb_vpn = 0, tlb_pfn = 0\<rparr>"

definition invalid_pte :: pte where
  "invalid_pte = \<lparr>pte_valid = False, pte_rw = 0, pte_pfn = 0, pte_private = 0\<rparr>"

definition private_pte :: "32 word \<Rightarrow> pte" where
  "private_pte f = \<lparr>pte_valid = True, pte_rw = 3, pte_pfn = f, pte_private = 3\<rparr>"

definition shared_pte :: "32 word \<Rightarrow> pte" where
  "shared_pte f = \<lparr>pte_valid = True, pte_rw = 1, pte_pfn = f, pte_private = 3\<rparr>"

text \<open>A block that \<^verbatim>\<open>malloc\<close> returns cleared, and one that it returns with old content.\<close>

definition zero_directory :: pte_directory where
  "zero_directory = [invalid_pte, invalid_pte]"

definition junk_directory :: pte_directory where
  "junk_directory =
     [\<lparr>pte_valid = True, pte_rw = 3, pte_pfn = 9, pte_private = 0\<rparr>,
      \<lparr>pte_valid = False, pte_rw = 1, pte_pfn = 2, pte_private = 3\<rparr>]"

definition null_links :: list_head where
  "null_links = \<lparr>next = Wild, prev = Wild\<rparr>"

definition zero_process :: process where
  "zero_process = \<lparr>pid = 0, pagetable = [None, None], list_node = null_links\<rparr>"

definition junk_process :: process where
  "junk_process =
     \<lparr>pid = 77, pagetable = [None, Some junk_directory], list_node = \<lparr>next = Node 7, prev = Wild\<rparr>\<rparr>"

text \<open>
  A node linked to itself, as an initialised list head is, and the header of
  Linux for what \<^verbatim>\<open>list_del\<close> leaves in the node it took out: two pointers that
  address nothing.
\<close>

definition self_links :: list_head where
  "self_links = \<lparr>next = Node 0, prev = Node 0\<rparr>"

definition list_poison :: "link \<Rightarrow> list_head \<Rightarrow> list_head" where
  "list_poison entry h = \<lparr>next = Wild, prev = Wild\<rparr>"

definition flushed_tlb :: "tlb_entry list" where
  "flushed_tlb = replicate 4 \<lparr>tlb_valid = False, tlb_rw = - 1, tlb_vpn = - 1, tlb_pfn = - 1\<rparr>"

text \<open>
  States of a machine with \<open>N = 2\<close> and \<open>F = 3\<close>. After
  \<^verbatim>\<open>alloc_page(0, 3)\<close> on the initial state whose process is linked to itself:
\<close>

definition one_page_state :: vm_state where
  "one_page_state =
     \<lparr>procs = [\<lparr>pid = 0, pagetable = [Some [private_pte 0, invalid_pte], None],
                list_node = self_links\<rparr>],
      processes = \<lparr>next = Head, prev = Head\<rparr>, current = 0, ptbr = 0,
      tlb = replicate 4 empty_entry, mapcounts = [1, 0, 0]\<rparr>"

text \<open>then \<^verbatim>\<open>free_page(0)\<close>:\<close>

definition freed_page_state :: vm_state where
  "freed_page_state =
     \<lparr>procs = [\<lparr>pid = 0, pagetable = [Some [invalid_pte, invalid_pte], None],
                list_node = self_links\<rparr>],
      processes = \<lparr>next = Head, prev = Head\<rparr>, current = 0, ptbr = 0,
      tlb = replicate 4 empty_entry, mapcounts = [0, 0, 0]\<rparr>"

text \<open>and \<^verbatim>\<open>free_page(0)\<close> once more:\<close>

definition underflow_state :: vm_state where
  "underflow_state =
     \<lparr>procs = [\<lparr>pid = 0, pagetable = [Some [invalid_pte, invalid_pte], None],
                list_node = self_links\<rparr>],
      processes = \<lparr>next = Head, prev = Head\<rparr>, current = 0, ptbr = 0,
      tlb = replicate 4 empty_entry, mapcounts = [- 1, 0, 0]\<rparr>"

text \<open>
  After \<^verbatim>\<open>alloc_page(0, 3)\<close> and \<^verbatim>\<open>switch_process(1)\<close>, a fork for which
  \<^verbatim>\<open>malloc\<close> returns a cleared block: the parent is the one process of the
  queue, the links of the child are null.
\<close>

definition forked_state :: vm_state where
  "forked_state =
     \<lparr>procs = [\<lparr>pid = 0, pagetable = [Some [shared_pte 0, invalid_pte], None],
                list_node = \<lparr>next = Head, prev = Head\<rparr>\<rparr>,
               \<lparr>pid = 1, pagetable = [Some [shared_pte 0, invalid_pte], None],
                list_node = null_links\<rparr>],
      processes = \<lparr>next = Node 0, prev = Node 0\<rparr>, current = 1, ptbr = 1,
      tlb = flushed_tlb, mapcounts = [2, 0, 0]\<rparr>"

text \<open>
  then \<^verbatim>\<open>free_page(0)\<close> in the child and \<^verbatim>\<open>switch_process(0)\<close> back to the parent,
  whose node \<^verbatim>\<open>list_del\<close> takes out of the queue and poisons:
\<close>

definition sole_owner_state :: vm_state where
  "sole_owner_state =
     \<lparr>procs = [\<lparr>pid = 0, pagetable = [Some [shared_pte 0, invalid_pte], None],
                list_node = null_links\<rparr>,
               \<lparr>pid = 1, pagetable = [Some [invalid_pte, invalid_pte], None],
                list_node = \<lparr>next = Head, prev = Head\<rparr>\<rparr>],
      processes = \<lparr>next = Node 1, prev = Node 1\<rparr>, current = 0, ptbr = 0,
      tlb = flushed_tlb, mapcounts = [1, 0, 0]\<rparr>"

section \<open>The translation cache\<close>






lemma tlb_overwrite_cases:
  "(if q = 2 then 3 else q) = rw \<Longrightarrow>
   (case tlb_overwrite t vpn rw pfn of
      None \<Rightarrow> \<forall>e \<in> set t. \<not> (tlb_vpn e = vpn \<and> tlb_valid e)
    | Some t' \<Rightarrow> lookup_tlb t' vpn q = Some pfn)"
  by (induction t) (auto split: option.splits)

lemma tlb_fill_cases:
  "(if q = 2 then 3 else q) = rw \<Longrightarrow>
   \<forall>e \<in> set t. \<not> (tlb_vpn e = vpn \<and> tlb_valid e) \<Longrightarrow>
   (case tlb_fill t vpn rw pfn of
      None \<Rightarrow> \<forall>e \<in> set t. tlb_valid e
    | Some t' \<Rightarrow> lookup_tlb t' vpn q = Some pfn)"
  by (induction t) (auto split: option.splits)

lemma insert_then_lookup:
  assumes "(\<exists>e \<in> set t. \<not> tlb_valid e) \<or> (\<exists>e \<in> set t. tlb_valid e \<and> tlb_vpn e = vpn)"
    and "(if q = 2 then 3 else q) = rw"
  shows "lookup_tlb (insert_tlb t vpn rw pfn) vpn q = Some pfn"
proof (cases "tlb_overwrite t vpn rw pfn")
  case (Some t')
  with tlb_overwrite_cases [OF assms(2), of t vpn pfn]
  show ?thesis by (simp add: insert_tlb_def)
next
  case None
  with tlb_overwrite_cases [OF assms(2), of t vpn pfn]
  have no: "\<forall>e \<in> set t. \<not> (tlb_vpn e = vpn \<and> tlb_valid e)" by simp
  with assms(1) have free: "\<exists>e \<in> set t. \<not> tlb_valid e" by auto
  show ?thesis
  proof (cases "tlb_fill t vpn rw pfn")
    case (Some t')
    with tlb_fill_cases [OF assms(2) no, of pfn] None
    show ?thesis by (simp add: insert_tlb_def)
  next
    case nofill: None
    with tlb_fill_cases [OF assms(2) no, of pfn] free
    show ?thesis by auto
  qed
qed

text \<open>
  Where the round trip holds. With a free slot or an entry for the page in the
  cache, inserting with an access other than write and probing with the same
  access hits with the inserted frame; a write probe hits after an insertion
  with read-write, the permission it looks for.
\<close>

theorem insert_tlb_lookup_roundtrip:
  assumes "(\<exists>e \<in> set t. \<not> tlb_valid e) \<or> (\<exists>e \<in> set t. tlb_valid e \<and> tlb_vpn e = vpn)"
  shows "(rw \<noteq> ACCESS_WRITE \<longrightarrow> lookup_tlb (insert_tlb t vpn rw pfn) vpn rw = Some pfn)
       \<and> lookup_tlb (insert_tlb t vpn (ACCESS_READ + ACCESS_WRITE) pfn) vpn ACCESS_WRITE = Some pfn"
  using insert_then_lookup [OF assms, of rw rw pfn]
    insert_then_lookup [OF assms, of ACCESS_WRITE "ACCESS_READ + ACCESS_WRITE" pfn]
  by (simp add: ACCESS_WRITE_def ACCESS_READ_def)

theorem insert_tlb_lookup_roundtrip_witness:
  "\<not> tlb_valid empty_entry
   \<and> lookup_tlb (insert_tlb [empty_entry] 5 ACCESS_READ 7) 5 ACCESS_READ = Some 7
   \<and> lookup_tlb (insert_tlb [empty_entry] 5 (ACCESS_READ + ACCESS_WRITE) 7) 5 ACCESS_WRITE = Some 7"
  using insert_tlb_lookup_roundtrip [of "[empty_entry]" 5 ACCESS_READ 7]
  by (simp add: empty_entry_def ACCESS_READ_def ACCESS_WRITE_def)

text \<open>
  Claim C9 does not hold of the code for the access write: the cache has a
  free slot, the mapping of page 5 is inserted for write, and the write probe
  for page 5 misses. The entry holds the permission 2, the same flag as the
  probe, for which the comment of \<^verbatim>\<open>lookup_tlb\<close> promises a hit; the code looks
  for 3.
\<close>

theorem insert_tlb_write_probe_misses:
  "\<not> tlb_valid empty_entry
   \<and> lookup_tlb (insert_tlb [empty_entry] 5 ACCESS_WRITE 7) 5 ACCESS_WRITE = None"
  by (simp add: empty_entry_def ACCESS_WRITE_def insert_tlb_def)

section \<open>Frames and page tables\<close>

declare find_free_frame.simps [simp del]

lemma find_free_frame_spec:
  "F \<le> length mc \<Longrightarrow>
   (case find_free_frame F mc i of
      Inl e \<Rightarrow> False
    | Inr None \<Rightarrow> \<forall>j. i \<le> j \<and> j < F \<longrightarrow> mc ! j \<noteq> 0
    | Inr (Some k) \<Rightarrow> i \<le> k \<and> k < F \<and> mc ! k = 0 \<and> (\<forall>j. i \<le> j \<and> j < k \<longrightarrow> mc ! j \<noteq> 0))"
proof (induction F mc i rule: find_free_frame.induct)
  case (1 F mc i)
  show ?case
  proof (cases "i < F \<and> mc ! i \<noteq> 0")
    case True
    with 1 have ih: "case find_free_frame F mc (Suc i) of
      Inl e \<Rightarrow> False
    | Inr None \<Rightarrow> \<forall>j. Suc i \<le> j \<and> j < F \<longrightarrow> mc ! j \<noteq> 0
    | Inr (Some k) \<Rightarrow> Suc i \<le> k \<and> k < F \<and> mc ! k = 0 \<and> (\<forall>j. Suc i \<le> j \<and> j < k \<longrightarrow> mc ! j \<noteq> 0)"
      by simp
    from True 1(2) have eq: "find_free_frame F mc i = find_free_frame F mc (Suc i)"
      by (subst find_free_frame.simps) simp
    have le: "\<And>j. i \<le> j \<Longrightarrow> j \<noteq> i \<Longrightarrow> Suc i \<le> j" by simp
    from ih True show ?thesis unfolding eq
      by (auto split: sum.splits option.splits dest: le)
  next
    case False
    with 1(2) show ?thesis
      by (subst find_free_frame.simps) auto
  qed
qed

lemma find_free_frame_Some_iff:
  assumes "length mc = F"
  shows "(\<exists>i<F. mc ! i = 0) \<Longrightarrow>
     \<exists>k. find_free_frame F mc 0 = Inr (Some k) \<and> k < F \<and> mc ! k = 0 \<and> (\<forall>j<k. mc ! j \<noteq> 0)"
  using find_free_frame_spec [of F mc 0] assms
  by (auto split: sum.splits option.splits)

lemma find_free_frame_None:
  assumes "length mc = F"
  shows "(\<forall>i<F. mc ! i \<noteq> 0) \<Longrightarrow> find_free_frame F mc 0 = Inr None"
  using find_free_frame_spec [of F mc 0] assms
  by (auto split: sum.splits option.splits)

lemma wf_stateD:
  assumes "wf_state N F s"
  shows "0 < N" and "F < 2 ^ 31" and "length (mapcounts s) = F"
    and "ptbr s < length (procs s)" and "ptbr s = current s"
    and "length (pagetable (procs s ! ptbr s)) = N"
    and "\<And>i d. i < N \<Longrightarrow> pagetable (procs s ! ptbr s) ! i = Some d \<Longrightarrow> length d = N"
proof -
  from assms show "0 < N" "F < 2 ^ 31" "length (mapcounts s) = F"
    "ptbr s < length (procs s)" "ptbr s = current s"
    by (simp_all add: wf_state_def)
  from assms have "wf_pagetable N (pagetable (procs s ! ptbr s))"
    by (simp add: wf_state_def list_all_length)
  then show "length (pagetable (procs s ! ptbr s)) = N"
    and "\<And>i d. i < N \<Longrightarrow> pagetable (procs s ! ptbr s) ! i = Some d \<Longrightarrow> length d = N"
    by (auto simp: wf_pagetable_def list_all_length split: option.splits)
qed

lemma vpn_indices: "unat vpn < N * N \<Longrightarrow> unat vpn div N < N \<and> unat vpn mod N < N"
  by (cases "N = 0") (simp_all add: less_mult_imp_div_less)

lemma unat_frame: "i < F \<Longrightarrow> F < 2 ^ 31 \<Longrightarrow> unat (of_nat i :: 32 word) = i"
  by (simp add: unat_of_nat)

lemma pte_at_Some:
  "pte_at N pt vpn = Some p \<Longrightarrow>
   \<exists>d. unat vpn div N < length pt \<and> pt ! (unat vpn div N) = Some d
      \<and> unat vpn mod N < length d \<and> d ! (unat vpn mod N) = p"
  by (auto simp: pte_at_def split: if_splits option.splits)

lemma pte_at_update_same:
  "unat vpn div N < length pt \<Longrightarrow> unat vpn mod N < length d \<Longrightarrow>
   pte_at N (pt[unat vpn div N := Some (d[unat vpn mod N := p])]) vpn = Some p"
  by (simp add: pte_at_def)

lemma vpn_split_inj:
  "unat v div N = unat vpn div N \<Longrightarrow> unat v mod N = unat vpn mod N \<Longrightarrow> v = (vpn :: 32 word)"
  by (metis div_mult_mod_eq word_unat_eq_iff)

lemma pte_at_update_other:
  assumes "v \<noteq> vpn" and "pt ! (unat vpn div N) = Some d"
  shows "pte_at N (pt[unat vpn div N := Some (d[unat vpn mod N := p])]) v = pte_at N pt v"
proof (cases "unat v div N = unat vpn div N")
  case True
  with assms(1) have "unat v mod N \<noteq> unat vpn mod N" using vpn_split_inj by blast
  with True assms(2) show ?thesis by (simp add: pte_at_def)
next
  case False
  then show ?thesis by (simp add: pte_at_def)
qed

lemma alloc_page_found:
  assumes wf: "wf_state N F s" and vpn: "unat vpn < N * N"
    and junk: "pagetable (procs s ! ptbr s) ! (unat vpn div N) = None \<longrightarrow> length junk = N"
    and ff: "find_free_frame F (mapcounts s) 0 = Inr (Some i)"
  shows "alloc_page N F junk s vpn rw =
     Inr (of_nat i,
       s\<lparr>procs := (procs s)[ptbr s := (procs s ! ptbr s)\<lparr>pagetable :=
            (pagetable (procs s ! ptbr s))[unat vpn div N := Some
              ((case pagetable (procs s ! ptbr s) ! (unat vpn div N) of None \<Rightarrow> junk | Some d \<Rightarrow> d)
                 [unat vpn mod N :=
                    ((case pagetable (procs s ! ptbr s) ! (unat vpn div N) of None \<Rightarrow> junk | Some d \<Rightarrow> d)
                       ! (unat vpn mod N))
                    \<lparr>pte_valid := True, pte_rw := rw, pte_private := rw, pte_pfn := of_nat i\<rparr>])]\<rparr>],
         mapcounts := (mapcounts s)[i := mapcounts s ! i + 1]\<rparr>)"
proof -
  note d = wf_stateD [OF wf]
  from vpn have ix: "unat vpn div N < N" "unat vpn mod N < N" using vpn_indices by blast+
  have len: "length (case pagetable (procs s ! ptbr s) ! (unat vpn div N) of None \<Rightarrow> junk | Some d \<Rightarrow> d) = N"
    using d(7) [OF ix(1)] junk by (simp split: option.splits)
  show ?thesis
    unfolding alloc_page_def Let_def using d(1,4,6) ix len ff by simp
qed

lemma alloc_page_none:
  assumes wf: "wf_state N F s" and vpn: "unat vpn < N * N"
    and ff: "find_free_frame F (mapcounts s) 0 = Inr None"
  shows "alloc_page N F junk s vpn rw = Inr (- 1, s)"
proof -
  note d = wf_stateD [OF wf]
  from vpn have ix: "unat vpn div N < N" "unat vpn mod N < N" using vpn_indices by blast+
  show ?thesis
    unfolding alloc_page_def Let_def using d(1,4,6) ix ff by simp
qed

text \<open>
  Claim C5. In a well-formed state and for a page number inside the table,
  \<^verbatim>\<open>alloc_page\<close> with a free frame returns the smallest frame whose counter is
  zero, the PTE of the page is valid with \<open>rw\<close> and \<open>private\<close> the access asked
  for and \<open>pfn\<close> that frame, and the counter of the frame is 1; with no free
  frame it returns \<open>-1\<close> and the state is the one before the call.
\<close>

theorem alloc_page_smallest_free_frame:
  assumes wf: "wf_state N F s" and vpn: "unat vpn < N * N" and junk': "length junk = N"
  shows "((\<exists>i<F. mapcounts s ! i = 0) \<longrightarrow>
           (\<exists>i s'. alloc_page N F junk s vpn rw = Inr (of_nat i, s')
              \<and> unat (of_nat i :: 32 word) = i
              \<and> i < F \<and> mapcounts s ! i = 0 \<and> (\<forall>j<i. mapcounts s ! j \<noteq> 0)
              \<and> (\<exists>p. pte_at N (pagetable (procs s' ! ptbr s')) vpn = Some p
                    \<and> pte_valid p \<and> pte_rw p = rw \<and> pte_private p = rw \<and> pte_pfn p = of_nat i)
              \<and> mapcounts s' ! i = 1))
       \<and> ((\<forall>i<F. mapcounts s ! i \<noteq> 0) \<longrightarrow> alloc_page N F junk s vpn rw = Inr (- 1, s))"
proof (intro conjI impI)
  note d = wf_stateD [OF wf]
  from junk' have junk: "pagetable (procs s ! ptbr s) ! (unat vpn div N) = None \<longrightarrow> length junk = N"
    by simp
  from vpn have ix: "unat vpn div N < N" "unat vpn mod N < N" using vpn_indices by blast+
  assume "\<exists>i<F. mapcounts s ! i = 0"
  from find_free_frame_Some_iff [OF d(3) this]
  obtain k where k: "find_free_frame F (mapcounts s) 0 = Inr (Some k)" "k < F"
    "mapcounts s ! k = 0" "\<forall>j<k. mapcounts s ! j \<noteq> 0" by blast
  have len: "length (case pagetable (procs s ! ptbr s) ! (unat vpn div N) of None \<Rightarrow> junk | Some d \<Rightarrow> d) = N"
    using d(7) [OF ix(1)] junk' by (simp split: option.splits)
  let ?s' = "snd (projr (alloc_page N F junk s vpn rw))"
  have res: "alloc_page N F junk s vpn rw = Inr (of_nat k, ?s')"
    by (simp add: alloc_page_found [OF wf vpn junk k(1)])
  have pte: "\<exists>p. pte_at N (pagetable (procs ?s' ! ptbr ?s')) vpn = Some p
                    \<and> pte_valid p \<and> pte_rw p = rw \<and> pte_private p = rw \<and> pte_pfn p = of_nat k"
    using d(4,6) ix len
    by (simp add: alloc_page_found [OF wf vpn junk k(1)] pte_at_update_same)
  have mc: "mapcounts ?s' ! k = 1"
    using d(3) k(2,3) by (simp add: alloc_page_found [OF wf vpn junk k(1)])
  from res pte mc k unat_frame [OF k(2) d(2)]
  show "\<exists>i s'. alloc_page N F junk s vpn rw = Inr (of_nat i, s')
              \<and> unat (of_nat i :: 32 word) = i
              \<and> i < F \<and> mapcounts s ! i = 0 \<and> (\<forall>j<i. mapcounts s ! j \<noteq> 0)
              \<and> (\<exists>p. pte_at N (pagetable (procs s' ! ptbr s')) vpn = Some p
                    \<and> pte_valid p \<and> pte_rw p = rw \<and> pte_private p = rw \<and> pte_pfn p = of_nat i)
              \<and> mapcounts s' ! i = 1"
    by blast
next
  note d = wf_stateD [OF wf]
  assume "\<forall>i<F. mapcounts s ! i \<noteq> 0"
  from find_free_frame_None [OF d(3) this] show "alloc_page N F junk s vpn rw = Inr (- 1, s)"
    by (rule alloc_page_none [OF wf vpn])
qed


text \<open>
  Claim C10. When the PTE of the page is already valid and maps a frame \<open>f\<close>
  whose counter is at least 1, and some frame is free, \<^verbatim>\<open>alloc_page\<close> overwrites
  the PTE with the smallest free frame, which is not \<open>f\<close>, adds one to the
  counter of the new frame and leaves the counter of \<open>f\<close> as it was.
\<close>

theorem alloc_page_overwrites_mapped_page:
  assumes wf: "wf_state N F s" and vpn: "unat vpn < N * N"
    and pte: "pte_at N (pagetable (procs s ! ptbr s)) vpn = Some p"
    and valid: "pte_valid p"
    and f: "unat (pte_pfn p) < F" "1 \<le> mapcounts s ! unat (pte_pfn p)"
    and free: "\<exists>i<F. mapcounts s ! i = 0"
  shows "\<exists>i s'. alloc_page N F junk s vpn rw = Inr (of_nat i, s')
           \<and> unat (of_nat i :: 32 word) = i
           \<and> i < F \<and> mapcounts s ! i = 0 \<and> (\<forall>j<i. mapcounts s ! j \<noteq> 0)
           \<and> of_nat i \<noteq> pte_pfn p
           \<and> pte_at N (pagetable (procs s' ! ptbr s')) vpn =
               Some (p\<lparr>pte_valid := True, pte_rw := rw, pte_private := rw, pte_pfn := of_nat i\<rparr>)
           \<and> mapcounts s' ! i = mapcounts s ! i + 1
           \<and> mapcounts s' ! unat (pte_pfn p) = mapcounts s ! unat (pte_pfn p)"
proof -
  note d = wf_stateD [OF wf]
  from vpn have ix: "unat vpn div N < N" "unat vpn mod N < N" using vpn_indices by blast+
  from pte_at_Some [OF pte] obtain dir where dir:
    "pagetable (procs s ! ptbr s) ! (unat vpn div N) = Some dir"
    "unat vpn mod N < length dir" "dir ! (unat vpn mod N) = p" by blast
  then have junk: "pagetable (procs s ! ptbr s) ! (unat vpn div N) = None \<longrightarrow> length junk = N"
    by simp
  from find_free_frame_Some_iff [OF d(3) free]
  obtain k where k: "find_free_frame F (mapcounts s) 0 = Inr (Some k)" "k < F"
    "mapcounts s ! k = 0" "\<forall>j<k. mapcounts s ! j \<noteq> 0" by blast
  from f(2) k(3) have neq: "k \<noteq> unat (pte_pfn p)" by auto
  have uk: "unat (of_nat k :: 32 word) = k" by (rule unat_frame [OF k(2) d(2)])
  with neq have neq': "of_nat k \<noteq> pte_pfn p" by auto
  let ?s' = "snd (projr (alloc_page N F junk s vpn rw))"
  note found = alloc_page_found [OF wf vpn junk k(1)]
  have res: "alloc_page N F junk s vpn rw = Inr (of_nat k, ?s')"
    by (simp add: found)
  have new: "pte_at N (pagetable (procs ?s' ! ptbr ?s')) vpn =
               Some (p\<lparr>pte_valid := True, pte_rw := rw, pte_private := rw, pte_pfn := of_nat k\<rparr>)"
    using d(4,6) ix dir by (simp add: found pte_at_update_same)
  have mk: "mapcounts ?s' ! k = mapcounts s ! k + 1"
    using d(3) k(2) by (simp add: found)
  have mf: "mapcounts ?s' ! unat (pte_pfn p) = mapcounts s ! unat (pte_pfn p)"
    using neq by (simp add: found)
  from res uk k(2,3,4) neq' new mk mf show ?thesis by blast
qed

lemma handle_page_fault_cow:
  assumes wf: "wf_state N F s" and vpn: "unat vpn < N * N"
    and pte: "pte_at N (pagetable (procs s ! ptbr s)) vpn = Some p"
    and valid: "pte_valid p" and rw: "pte_rw p = ACCESS_READ"
    and priv: "pte_private p = ACCESS_READ + ACCESS_WRITE"
    and f: "unat (pte_pfn p) < F"
  shows "\<exists>d. pagetable (procs s ! ptbr s) ! (unat vpn div N) = Some d \<and>
    handle_page_fault N F s vpn ACCESS_WRITE =
     (if mapcounts s ! unat (pte_pfn p) = 1
      then Inr (True, s\<lparr>procs := (procs s)[ptbr s := (procs s ! ptbr s)\<lparr>pagetable :=
              (pagetable (procs s ! ptbr s))[unat vpn div N := Some (d[unat vpn mod N :=
                 p\<lparr>pte_rw := ACCESS_READ + ACCESS_WRITE\<rparr>])]\<rparr>]\<rparr>)
      else case find_free_frame F (mapcounts s) 0 of
             Inl e \<Rightarrow> Inl e
           | Inr None \<Rightarrow> Inr (False, s)
           | Inr (Some i) \<Rightarrow>
               Inr (True, s\<lparr>procs := (procs s)[ptbr s := (procs s ! ptbr s)\<lparr>pagetable :=
                      (pagetable (procs s ! ptbr s))[unat vpn div N := Some (d[unat vpn mod N :=
                         p\<lparr>pte_pfn := of_nat i, pte_rw := ACCESS_READ + ACCESS_WRITE\<rparr>])]\<rparr>],
                    mapcounts := ((mapcounts s)[unat (pte_pfn p) := mapcounts s ! unat (pte_pfn p) - 1])
                       [i := ((mapcounts s)[unat (pte_pfn p) := mapcounts s ! unat (pte_pfn p) - 1]) ! i + 1]\<rparr>))"
proof -
  note d = wf_stateD [OF wf]
  from vpn have ix: "unat vpn div N < N" "unat vpn mod N < N" using vpn_indices by blast+
  from pte_at_Some [OF pte] obtain dir where dir:
    "pagetable (procs s ! ptbr s) ! (unat vpn div N) = Some dir"
    "unat vpn mod N < length dir" "dir ! (unat vpn mod N) = p" by blast
  have "handle_page_fault N F s vpn ACCESS_WRITE =
     (if mapcounts s ! unat (pte_pfn p) = 1
      then Inr (True, s\<lparr>procs := (procs s)[ptbr s := (procs s ! ptbr s)\<lparr>pagetable :=
              (pagetable (procs s ! ptbr s))[unat vpn div N := Some (dir[unat vpn mod N :=
                 p\<lparr>pte_rw := ACCESS_READ + ACCESS_WRITE\<rparr>])]\<rparr>]\<rparr>)
      else case find_free_frame F (mapcounts s) 0 of
             Inl e \<Rightarrow> Inl e
           | Inr None \<Rightarrow> Inr (False, s)
           | Inr (Some i) \<Rightarrow>
               Inr (True, s\<lparr>procs := (procs s)[ptbr s := (procs s ! ptbr s)\<lparr>pagetable :=
                      (pagetable (procs s ! ptbr s))[unat vpn div N := Some (dir[unat vpn mod N :=
                         p\<lparr>pte_pfn := of_nat i, pte_rw := ACCESS_READ + ACCESS_WRITE\<rparr>])]\<rparr>],
                    mapcounts := ((mapcounts s)[unat (pte_pfn p) := mapcounts s ! unat (pte_pfn p) - 1])
                       [i := ((mapcounts s)[unat (pte_pfn p) := mapcounts s ! unat (pte_pfn p) - 1]) ! i + 1]\<rparr>))"
    unfolding handle_page_fault_def Let_def
    using d(1,3,4,6) ix dir valid rw priv f
    by (simp add: add.commute split: sum.splits option.splits)
  with dir(1) show ?thesis by blast
qed

lemma ptbr_table_update:
  assumes "ptbr s < length (procs s)"
  shows "pagetable ((procs s)[ptbr s := (procs s ! ptbr s)\<lparr>pagetable := pt'\<rparr>] ! ptbr s) = pt'"
    and "pid ((procs s)[ptbr s := (procs s ! ptbr s)\<lparr>pagetable := pt'\<rparr>] ! ptbr s) = pid (procs s ! ptbr s)"
    and "a \<noteq> ptbr s \<Longrightarrow> (procs s)[ptbr s := (procs s ! ptbr s)\<lparr>pagetable := pt'\<rparr>] ! a = procs s ! a"
  using assms by simp_all

text \<open>
  Claim C4. A write fault on a valid PTE with \<open>rw\<close> read and \<open>private\<close>
  read-write whose frame has the counter 1 succeeds; the PTE differs from the
  old one in \<open>rw\<close> only, which is read-write, and every other PTE of the
  process, every other process, the counters, the cache, the queue and the
  pointers are unchanged.
\<close>

theorem handle_page_fault_sole_owner:
  assumes wf: "wf_state N F s" and vpn: "unat vpn < N * N"
    and pte: "pte_at N (pagetable (procs s ! ptbr s)) vpn = Some p"
    and valid: "pte_valid p" and rw: "pte_rw p = ACCESS_READ"
    and priv: "pte_private p = ACCESS_READ + ACCESS_WRITE"
    and f: "unat (pte_pfn p) < F"
    and one: "mapcounts s ! unat (pte_pfn p) = 1"
  shows "\<exists>s'. handle_page_fault N F s vpn ACCESS_WRITE = Inr (True, s')
    \<and> pte_at N (pagetable (procs s' ! ptbr s')) vpn = Some (p\<lparr>pte_rw := ACCESS_READ + ACCESS_WRITE\<rparr>)
    \<and> (\<forall>v. v \<noteq> vpn \<longrightarrow>
          pte_at N (pagetable (procs s' ! ptbr s')) v = pte_at N (pagetable (procs s ! ptbr s)) v)
    \<and> length (procs s') = length (procs s)
    \<and> (\<forall>a. a \<noteq> ptbr s \<longrightarrow> procs s' ! a = procs s ! a)
    \<and> pid (procs s' ! ptbr s') = pid (procs s ! ptbr s)
    \<and> mapcounts s' = mapcounts s \<and> tlb s' = tlb s
    \<and> processes s' = processes s \<and> current s' = current s \<and> ptbr s' = ptbr s"
proof -
  note d = wf_stateD [OF wf]
  from vpn have ix: "unat vpn div N < N" "unat vpn mod N < N" using vpn_indices by blast+
  from pte_at_Some [OF pte] obtain dir where dir:
    "pagetable (procs s ! ptbr s) ! (unat vpn div N) = Some dir"
    "unat vpn mod N < length dir" "dir ! (unat vpn mod N) = p" by blast
  define pt' where "pt' = (pagetable (procs s ! ptbr s))[unat vpn div N := Some (dir[unat vpn mod N :=
                 p\<lparr>pte_rw := ACCESS_READ + ACCESS_WRITE\<rparr>])]"
  define s' where "s' = s\<lparr>procs := (procs s)[ptbr s := (procs s ! ptbr s)\<lparr>pagetable := pt'\<rparr>]\<rparr>"
  from handle_page_fault_cow [OF wf vpn pte valid rw priv f] dir(1) one
  have res: "handle_page_fault N F s vpn ACCESS_WRITE = Inr (True, s')"
    by (auto simp: s'_def pt'_def)
  have tab: "pagetable (procs s' ! ptbr s') = pt'"
    using d(4) by (simp add: s'_def)
  have same: "pte_at N pt' vpn = Some (p\<lparr>pte_rw := ACCESS_READ + ACCESS_WRITE\<rparr>)"
    unfolding pt'_def using d(6) ix dir(2) by (simp add: pte_at_update_same)
  have other: "\<forall>v. v \<noteq> vpn \<longrightarrow> pte_at N pt' v = pte_at N (pagetable (procs s ! ptbr s)) v"
    unfolding pt'_def using dir(1) by (simp add: pte_at_update_other)
  have rest: "length (procs s') = length (procs s)"
    "\<forall>a. a \<noteq> ptbr s \<longrightarrow> procs s' ! a = procs s ! a"
    "pid (procs s' ! ptbr s') = pid (procs s ! ptbr s)"
    "mapcounts s' = mapcounts s" "tlb s' = tlb s"
    "processes s' = processes s" "current s' = current s" "ptbr s' = ptbr s"
    using d(4) by (simp_all add: s'_def)
  from res tab same other rest show ?thesis by simp
qed

text \<open>
  Claim C3. A write fault on a valid PTE with \<open>rw\<close> read and \<open>private\<close>
  read-write whose frame has a counter above 1: with a free frame it succeeds,
  takes the smallest free frame, decrements the counter of the old frame, sets
  the counter of the new frame to 1 and rewrites \<open>pfn\<close> and \<open>rw\<close> of the PTE,
  every other PTE and every other process staying as they were; with no free
  frame it fails and the state is unchanged.
\<close>

theorem handle_page_fault_shared_frame:
  assumes wf: "wf_state N F s" and vpn: "unat vpn < N * N"
    and pte: "pte_at N (pagetable (procs s ! ptbr s)) vpn = Some p"
    and valid: "pte_valid p" and rw: "pte_rw p = ACCESS_READ"
    and priv: "pte_private p = ACCESS_READ + ACCESS_WRITE"
    and f: "unat (pte_pfn p) < F"
    and shared: "1 < mapcounts s ! unat (pte_pfn p)"
  shows "((\<exists>i<F. mapcounts s ! i = 0) \<longrightarrow>
      (\<exists>i s'. handle_page_fault N F s vpn ACCESS_WRITE = Inr (True, s')
        \<and> unat (of_nat i :: 32 word) = i
        \<and> i < F \<and> mapcounts s ! i = 0 \<and> (\<forall>j<i. mapcounts s ! j \<noteq> 0)
        \<and> pte_at N (pagetable (procs s' ! ptbr s')) vpn =
            Some (p\<lparr>pte_pfn := of_nat i, pte_rw := ACCESS_READ + ACCESS_WRITE\<rparr>)
        \<and> mapcounts s' =
            (mapcounts s)[unat (pte_pfn p) := mapcounts s ! unat (pte_pfn p) - 1, i := 1]
        \<and> (\<forall>v. v \<noteq> vpn \<longrightarrow>
              pte_at N (pagetable (procs s' ! ptbr s')) v = pte_at N (pagetable (procs s ! ptbr s)) v)
        \<and> length (procs s') = length (procs s)
        \<and> (\<forall>a. a \<noteq> ptbr s \<longrightarrow> procs s' ! a = procs s ! a)
        \<and> pid (procs s' ! ptbr s') = pid (procs s ! ptbr s)
        \<and> tlb s' = tlb s \<and> processes s' = processes s
        \<and> current s' = current s \<and> ptbr s' = ptbr s))
    \<and> ((\<forall>i<F. mapcounts s ! i \<noteq> 0) \<longrightarrow>
          handle_page_fault N F s vpn ACCESS_WRITE = Inr (False, s))"
proof (intro conjI impI)
  note d = wf_stateD [OF wf]
  from shared have ne1: "mapcounts s ! unat (pte_pfn p) \<noteq> 1" by auto
  assume "\<forall>i<F. mapcounts s ! i \<noteq> 0"
  from find_free_frame_None [OF d(3) this] handle_page_fault_cow [OF wf vpn pte valid rw priv f] ne1
  show "handle_page_fault N F s vpn ACCESS_WRITE = Inr (False, s)" by auto
next
  note d = wf_stateD [OF wf]
  from vpn have ix: "unat vpn div N < N" "unat vpn mod N < N" using vpn_indices by blast+
  from shared have ne1: "mapcounts s ! unat (pte_pfn p) \<noteq> 1" by auto
  from shared have ne0: "mapcounts s ! unat (pte_pfn p) \<noteq> 0" by auto
  from pte_at_Some [OF pte] obtain dir where dir:
    "pagetable (procs s ! ptbr s) ! (unat vpn div N) = Some dir"
    "unat vpn mod N < length dir" "dir ! (unat vpn mod N) = p" by blast
  assume "\<exists>i<F. mapcounts s ! i = 0"
  from find_free_frame_Some_iff [OF d(3) this]
  obtain k where k: "find_free_frame F (mapcounts s) 0 = Inr (Some k)" "k < F"
    "mapcounts s ! k = 0" "\<forall>j<k. mapcounts s ! j \<noteq> 0" by blast
  from ne0 k(3) have neq: "k \<noteq> unat (pte_pfn p)" by auto
  have uk: "unat (of_nat k :: 32 word) = k" by (rule unat_frame [OF k(2) d(2)])
  define pt' where "pt' = (pagetable (procs s ! ptbr s))[unat vpn div N := Some (dir[unat vpn mod N :=
                 p\<lparr>pte_pfn := of_nat k, pte_rw := ACCESS_READ + ACCESS_WRITE\<rparr>])]"
  define mc' where "mc' = (mapcounts s)[unat (pte_pfn p) := mapcounts s ! unat (pte_pfn p) - 1, k := 1]"
  define s' where "s' = s\<lparr>procs := (procs s)[ptbr s := (procs s ! ptbr s)\<lparr>pagetable := pt'\<rparr>],
                          mapcounts := mc'\<rparr>"
  from handle_page_fault_cow [OF wf vpn pte valid rw priv f] dir(1) ne1 k(1,3) neq
  have res: "handle_page_fault N F s vpn ACCESS_WRITE = Inr (True, s')"
    by (auto simp: s'_def pt'_def mc'_def)
  have tab: "pagetable (procs s' ! ptbr s') = pt'"
    using d(4) by (simp add: s'_def)
  have same: "pte_at N pt' vpn = Some (p\<lparr>pte_pfn := of_nat k, pte_rw := ACCESS_READ + ACCESS_WRITE\<rparr>)"
    unfolding pt'_def using d(6) ix dir(2) by (simp add: pte_at_update_same)
  have other: "\<forall>v. v \<noteq> vpn \<longrightarrow> pte_at N pt' v = pte_at N (pagetable (procs s ! ptbr s)) v"
    unfolding pt'_def using dir(1) by (simp add: pte_at_update_other)
  have rest: "length (procs s') = length (procs s)"
    "\<forall>a. a \<noteq> ptbr s \<longrightarrow> procs s' ! a = procs s ! a"
    "pid (procs s' ! ptbr s') = pid (procs s ! ptbr s)"
    "mapcounts s' = mc'" "tlb s' = tlb s"
    "processes s' = processes s" "current s' = current s" "ptbr s' = ptbr s"
    using d(4) by (simp_all add: s'_def)
  from res tab same other rest uk k(2,3,4)
  show "\<exists>i s'. handle_page_fault N F s vpn ACCESS_WRITE = Inr (True, s')
        \<and> unat (of_nat i :: 32 word) = i
        \<and> i < F \<and> mapcounts s ! i = 0 \<and> (\<forall>j<i. mapcounts s ! j \<noteq> 0)
        \<and> pte_at N (pagetable (procs s' ! ptbr s')) vpn =
            Some (p\<lparr>pte_pfn := of_nat i, pte_rw := ACCESS_READ + ACCESS_WRITE\<rparr>)
        \<and> mapcounts s' =
            (mapcounts s)[unat (pte_pfn p) := mapcounts s ! unat (pte_pfn p) - 1, i := 1]
        \<and> (\<forall>v. v \<noteq> vpn \<longrightarrow>
              pte_at N (pagetable (procs s' ! ptbr s')) v = pte_at N (pagetable (procs s ! ptbr s)) v)
        \<and> length (procs s') = length (procs s)
        \<and> (\<forall>a. a \<noteq> ptbr s \<longrightarrow> procs s' ! a = procs s ! a)
        \<and> pid (procs s' ! ptbr s') = pid (procs s ! ptbr s)
        \<and> tlb s' = tlb s \<and> processes s' = processes s
        \<and> current s' = current s \<and> ptbr s' = ptbr s"
    unfolding mc'_def by (intro exI [of _ k] exI [of _ s']) simp
qed

lemmas state_defs = one_page_state_def freed_page_state_def underflow_state_def forked_state_def
  sole_owner_state_def invalid_pte_def private_pte_def shared_pte_def zero_directory_def
  junk_directory_def zero_process_def junk_process_def flushed_tlb_def empty_entry_def init_state_def
  null_links_def self_links_def list_poison_def

lemma wf_one_page_state: "wf_state 2 3 one_page_state"
  by (simp add: wf_state_def wf_pagetable_def state_defs)

lemma wf_forked_state: "wf_state 2 3 forked_state"
  by (simp add: wf_state_def wf_pagetable_def state_defs)

lemma wf_sole_owner_state: "wf_state 2 3 sole_owner_state"
  by (simp add: wf_state_def wf_pagetable_def state_defs)

lemma alloc_page_example:
  "alloc_page 2 3 junk_directory one_page_state 2 3 =
     Inr (1, one_page_state
       \<lparr>procs := [\<lparr>pid = 0, pagetable = [Some [private_pte 0, invalid_pte],
            Some [private_pte 1, \<lparr>pte_valid = False, pte_rw = 1, pte_pfn = 2, pte_private = 3\<rparr>]],
            list_node = self_links\<rparr>],
        mapcounts := [1, 1, 0]\<rparr>)"
  by (simp add: alloc_page_def find_free_frame.simps state_defs)

theorem alloc_page_smallest_free_frame_witness:
  "wf_state 2 3 one_page_state \<and> unat (2 :: 32 word) < 2 * 2 \<and> length junk_directory = 2
   \<and> (\<exists>i<3. mapcounts one_page_state ! i = 0)
   \<and> (\<exists>i s'. alloc_page 2 3 junk_directory one_page_state 2 3 = Inr (of_nat i, s')
              \<and> unat (of_nat i :: 32 word) = i
              \<and> i < 3 \<and> mapcounts one_page_state ! i = 0
              \<and> (\<forall>j<i. mapcounts one_page_state ! j \<noteq> 0)
              \<and> (\<exists>p. pte_at 2 (pagetable (procs s' ! ptbr s')) 2 = Some p
                    \<and> pte_valid p \<and> pte_rw p = 3 \<and> pte_private p = 3 \<and> pte_pfn p = of_nat i)
              \<and> mapcounts s' ! i = 1)"
proof -
  have vpn: "unat (2 :: 32 word) < 2 * 2" by simp
  have junk: "length junk_directory = 2" by (simp add: junk_directory_def)
  have free: "\<exists>i<3. mapcounts one_page_state ! i = 0"
    by (rule exI [of _ 1]) (simp add: one_page_state_def)
  from alloc_page_smallest_free_frame [OF wf_one_page_state vpn junk, of 3] free
    wf_one_page_state vpn junk
  show ?thesis by blast
qed

theorem alloc_page_overwrites_mapped_page_witness:
  "wf_state 2 3 one_page_state \<and> unat (0 :: 32 word) < 2 * 2
   \<and> pte_at 2 (pagetable (procs one_page_state ! ptbr one_page_state)) 0 = Some (private_pte 0)
   \<and> pte_valid (private_pte 0) \<and> unat (pte_pfn (private_pte 0)) < 3
   \<and> 1 \<le> mapcounts one_page_state ! unat (pte_pfn (private_pte 0))
   \<and> (\<exists>i<3. mapcounts one_page_state ! i = 0)
   \<and> (\<exists>i s'. alloc_page 2 3 junk_directory one_page_state 0 1 = Inr (of_nat i, s')
           \<and> unat (of_nat i :: 32 word) = i
           \<and> i < 3 \<and> mapcounts one_page_state ! i = 0
           \<and> (\<forall>j<i. mapcounts one_page_state ! j \<noteq> 0)
           \<and> of_nat i \<noteq> pte_pfn (private_pte 0)
           \<and> pte_at 2 (pagetable (procs s' ! ptbr s')) 0 =
               Some ((private_pte 0)\<lparr>pte_valid := True, pte_rw := 1, pte_private := 1,
                                     pte_pfn := of_nat i\<rparr>)
           \<and> mapcounts s' ! i = mapcounts one_page_state ! i + 1
           \<and> mapcounts s' ! unat (pte_pfn (private_pte 0)) =
               mapcounts one_page_state ! unat (pte_pfn (private_pte 0)))"
proof -
  have vpn: "unat (0 :: 32 word) < 2 * 2" by simp
  have pte: "pte_at 2 (pagetable (procs one_page_state ! ptbr one_page_state)) 0 = Some (private_pte 0)"
    by (simp add: pte_at_def one_page_state_def)
  have valid: "pte_valid (private_pte 0)" by (simp add: private_pte_def)
  have f: "unat (pte_pfn (private_pte 0)) < 3"
    "1 \<le> mapcounts one_page_state ! unat (pte_pfn (private_pte 0))"
    by (simp_all add: private_pte_def one_page_state_def)
  have free: "\<exists>i<3. mapcounts one_page_state ! i = 0"
    by (rule exI [of _ 1]) (simp add: one_page_state_def)
  from alloc_page_overwrites_mapped_page [OF wf_one_page_state vpn pte valid f free, of junk_directory 1]
    wf_one_page_state vpn pte valid f free
  show ?thesis by blast
qed

theorem handle_page_fault_sole_owner_witness:
  "wf_state 2 3 sole_owner_state \<and> unat (0 :: 32 word) < 2 * 2
   \<and> pte_at 2 (pagetable (procs sole_owner_state ! ptbr sole_owner_state)) 0 = Some (shared_pte 0)
   \<and> pte_valid (shared_pte 0) \<and> pte_rw (shared_pte 0) = ACCESS_READ
   \<and> pte_private (shared_pte 0) = ACCESS_READ + ACCESS_WRITE
   \<and> unat (pte_pfn (shared_pte 0)) < 3
   \<and> mapcounts sole_owner_state ! unat (pte_pfn (shared_pte 0)) = 1
   \<and> handle_page_fault 2 3 sole_owner_state 0 ACCESS_WRITE =
       Inr (True, sole_owner_state\<lparr>procs :=
         [\<lparr>pid = 0, pagetable = [Some [private_pte 0, invalid_pte], None],
           list_node = null_links\<rparr>,
          \<lparr>pid = 1, pagetable = [Some [invalid_pte, invalid_pte], None],
           list_node = \<lparr>next = Head, prev = Head\<rparr>\<rparr>]\<rparr>)"
proof -
  have vpn: "unat (0 :: 32 word) < 2 * 2" by simp
  have pte: "pte_at 2 (pagetable (procs sole_owner_state ! ptbr sole_owner_state)) 0 = Some (shared_pte 0)"
    by (simp add: pte_at_def sole_owner_state_def)
  have p: "pte_valid (shared_pte 0)" "pte_rw (shared_pte 0) = ACCESS_READ"
    "pte_private (shared_pte 0) = ACCESS_READ + ACCESS_WRITE"
    "unat (pte_pfn (shared_pte 0)) < 3"
    "mapcounts sole_owner_state ! unat (pte_pfn (shared_pte 0)) = 1"
    by (simp_all add: shared_pte_def sole_owner_state_def ACCESS_READ_def ACCESS_WRITE_def)
  have ev: "handle_page_fault 2 3 sole_owner_state 0 ACCESS_WRITE =
       Inr (True, sole_owner_state\<lparr>procs :=
         [\<lparr>pid = 0, pagetable = [Some [private_pte 0, invalid_pte], None],
           list_node = null_links\<rparr>,
          \<lparr>pid = 1, pagetable = [Some [invalid_pte, invalid_pte], None],
           list_node = \<lparr>next = Head, prev = Head\<rparr>\<rparr>]\<rparr>)"
    using handle_page_fault_sole_owner [OF wf_sole_owner_state vpn pte p]
    by (simp add: handle_page_fault_def state_defs ACCESS_READ_def ACCESS_WRITE_def)
  from ev wf_sole_owner_state vpn pte p show ?thesis by blast
qed

theorem handle_page_fault_shared_frame_witness:
  "wf_state 2 3 forked_state \<and> unat (0 :: 32 word) < 2 * 2
   \<and> pte_at 2 (pagetable (procs forked_state ! ptbr forked_state)) 0 = Some (shared_pte 0)
   \<and> pte_valid (shared_pte 0) \<and> pte_rw (shared_pte 0) = ACCESS_READ
   \<and> pte_private (shared_pte 0) = ACCESS_READ + ACCESS_WRITE
   \<and> unat (pte_pfn (shared_pte 0)) < 3
   \<and> 1 < mapcounts forked_state ! unat (pte_pfn (shared_pte 0))
   \<and> (\<exists>i<3. mapcounts forked_state ! i = 0)
   \<and> handle_page_fault 2 3 forked_state 0 ACCESS_WRITE =
       Inr (True, forked_state\<lparr>procs :=
         [\<lparr>pid = 0, pagetable = [Some [shared_pte 0, invalid_pte], None],
           list_node = \<lparr>next = Head, prev = Head\<rparr>\<rparr>,
          \<lparr>pid = 1, pagetable = [Some [private_pte 1, invalid_pte], None],
           list_node = null_links\<rparr>],
         mapcounts := [1, 1, 0]\<rparr>)"
proof -
  have vpn: "unat (0 :: 32 word) < 2 * 2" by simp
  have pte: "pte_at 2 (pagetable (procs forked_state ! ptbr forked_state)) 0 = Some (shared_pte 0)"
    by (simp add: pte_at_def forked_state_def)
  have p: "pte_valid (shared_pte 0)" "pte_rw (shared_pte 0) = ACCESS_READ"
    "pte_private (shared_pte 0) = ACCESS_READ + ACCESS_WRITE"
    "unat (pte_pfn (shared_pte 0)) < 3"
    "1 < mapcounts forked_state ! unat (pte_pfn (shared_pte 0))"
    by (simp_all add: shared_pte_def forked_state_def ACCESS_READ_def ACCESS_WRITE_def)
  have free: "\<exists>i<3. mapcounts forked_state ! i = 0"
    by (rule exI [of _ 1]) (simp add: forked_state_def)
  have ev: "handle_page_fault 2 3 forked_state 0 ACCESS_WRITE =
       Inr (True, forked_state\<lparr>procs :=
         [\<lparr>pid = 0, pagetable = [Some [shared_pte 0, invalid_pte], None],
           list_node = \<lparr>next = Head, prev = Head\<rparr>\<rparr>,
          \<lparr>pid = 1, pagetable = [Some [private_pte 1, invalid_pte], None],
           list_node = null_links\<rparr>],
         mapcounts := [1, 1, 0]\<rparr>)"
    using handle_page_fault_shared_frame [OF wf_forked_state vpn pte p]
    by (simp add: handle_page_fault_def find_free_frame.simps state_defs ACCESS_READ_def ACCESS_WRITE_def)
  from ev wf_forked_state vpn pte p free show ?thesis by blast
qed

section \<open>Deallocation and the reference counts\<close>

text \<open>The half of claim C7 that the code meets: a page whose directory is null.\<close>

lemma free_page_null_directory:
  assumes wf: "wf_state N F s" and vpn: "unat vpn < N * N"
    and null: "pagetable (procs s ! ptbr s) ! (unat vpn div N) = None"
  shows "free_page N s vpn = Inr s"
proof -
  note d = wf_stateD [OF wf]
  from vpn have ix: "unat vpn div N < N" using vpn_indices by blast
  show ?thesis
    unfolding free_page_def Let_def using d(1,4,6) ix null by simp
qed

text \<open>
  Claim C7 does not hold of the code where the directory is there and the PTE
  is invalid. After \<^verbatim>\<open>alloc_page(0, 3)\<close> and \<^verbatim>\<open>free_page(0)\<close> the PTE of page 0
  is invalid and frame 0 is free; a second \<^verbatim>\<open>free_page(0)\<close> takes the counter of
  frame 0 from 0 to 4294967295.
\<close>

theorem free_page_invalid_pte_underflow:
  "wf_state 2 3 freed_page_state
   \<and> pte_at 2 (pagetable (procs freed_page_state ! ptbr freed_page_state)) 0 = Some invalid_pte
   \<and> \<not> pte_valid invalid_pte
   \<and> free_page 2 freed_page_state 0 = Inr underflow_state
   \<and> mapcounts freed_page_state ! 0 = 0
   \<and> mapcounts underflow_state ! 0 = 4294967295"
  by (simp add: free_page_def pte_at_def wf_state_def wf_pagetable_def tlb_invalidate_def state_defs)

text \<open>
  Claim C1 does not hold of the code. From the initial state,
  \<^verbatim>\<open>alloc_page(0, 3)\<close>, \<^verbatim>\<open>free_page(0)\<close> and \<^verbatim>\<open>free_page(0)\<close> run without a fault;
  the counters agree with the page tables up to the last call and disagree
  after it.
\<close>

theorem refcount_inv_broken_by_free_page:
  "refcount_inv (init_state 2 3 4 self_links)
   \<and> alloc_page 2 3 zero_directory (init_state 2 3 4 self_links) 0 3 = Inr (0, one_page_state)
   \<and> refcount_inv one_page_state
   \<and> free_page 2 one_page_state 0 = Inr freed_page_state
   \<and> refcount_inv freed_page_state
   \<and> free_page 2 freed_page_state 0 = Inr underflow_state
   \<and> \<not> refcount_inv underflow_state"
  by (simp add: refcount_inv_def total_mappings_def nr_mappings_def ptes_of_def maps_frame_def
      alloc_page_def free_page_def find_free_frame.simps tlb_invalidate_def state_defs
      eval_nat_numeral unat_gt_0)

text \<open>The same invariant is lost when \<^verbatim>\<open>alloc_page\<close> maps a page that is mapped already.\<close>

lemma refcount_inv_broken_by_alloc_page:
  "refcount_inv one_page_state
   \<and> alloc_page 2 3 zero_directory one_page_state 0 3 =
       Inr (1, one_page_state\<lparr>procs := [\<lparr>pid = 0, pagetable = [Some [private_pte 1, invalid_pte], None],
                                            list_node = self_links\<rparr>],
                              mapcounts := [1, 1, 0]\<rparr>)
   \<and> \<not> refcount_inv (one_page_state\<lparr>procs := [\<lparr>pid = 0, pagetable = [Some [private_pte 1, invalid_pte], None],
                                            list_node = self_links\<rparr>],
                              mapcounts := [1, 1, 0]\<rparr>)"
  by (simp add: refcount_inv_def total_mappings_def nr_mappings_def ptes_of_def maps_frame_def
      alloc_page_def free_page_def find_free_frame.simps tlb_invalidate_def state_defs
      eval_nat_numeral unat_gt_0)

section \<open>Switching and forking\<close>

lemma cow_downgrade_fields [simp]:
  "pte_valid (cow_downgrade p) = pte_valid p"
  "pte_pfn (cow_downgrade p) = pte_pfn p"
  "pte_private (cow_downgrade p) = pte_private p"
  by (simp_all add: cow_downgrade_def)

lemma fork_ptes_spec:
  assumes "\<forall>p \<in> set ps. pte_valid p \<longrightarrow> unat (pte_pfn p) < length mc"
  shows "\<exists>mc'. fork_ptes ps mc = Inr (map cow_downgrade ps, map cow_downgrade ps, mc')
           \<and> length mc' = length mc
           \<and> (\<forall>f. unat f < length mc \<longrightarrow>
                 mc' ! unat f = mc ! unat f + of_nat (length (filter (maps_frame f) ps)))"
  using assms
proof (induction ps arbitrary: mc)
  case Nil
  then show ?case by simp
next
  case (Cons p ps)
  show ?case
  proof (cases "pte_valid p")
    case True
    with Cons.prems have ix: "unat (pte_pfn p) < length mc" by simp
    let ?mc1 = "mc[unat (pte_pfn p) := mc ! unat (pte_pfn p) + 1]"
    from Cons.prems have "\<forall>q \<in> set ps. pte_valid q \<longrightarrow> unat (pte_pfn q) < length ?mc1" by simp
    from Cons.IH [OF this] obtain mc' where mc':
      "fork_ptes ps ?mc1 = Inr (map cow_downgrade ps, map cow_downgrade ps, mc')"
      "length mc' = length mc"
      "\<forall>f. unat f < length mc \<longrightarrow>
          mc' ! unat f = ?mc1 ! unat f + of_nat (length (filter (maps_frame f) ps))"
      by auto
    have res: "fork_ptes (p # ps) mc = Inr (map cow_downgrade (p # ps), map cow_downgrade (p # ps), mc')"
      using True ix mc'(1) by (simp add: Let_def)
    have cnt: "mc' ! unat f = mc ! unat f + of_nat (length (filter (maps_frame f) (p # ps)))"
      if "unat f < length mc" for f
    proof (cases "f = pte_pfn p")
      case eq: True
      with True have "maps_frame f p" by (simp add: maps_frame_def)
      with mc'(3) that ix eq show ?thesis by simp
    next
      case False
      then have "unat f \<noteq> unat (pte_pfn p)" by (simp add: word_unat_eq_iff)
      moreover from False have "\<not> maps_frame f p" by (simp add: maps_frame_def)
      ultimately show ?thesis using mc'(3) that by simp
    qed
    from res mc'(2) cnt show ?thesis by blast
  next
    case False
    from Cons.prems have "\<forall>q \<in> set ps. pte_valid q \<longrightarrow> unat (pte_pfn q) < length mc" by simp
    from Cons.IH [OF this] obtain mc' where mc':
      "fork_ptes ps mc = Inr (map cow_downgrade ps, map cow_downgrade ps, mc')"
      "length mc' = length mc"
      "\<forall>f. unat f < length mc \<longrightarrow>
          mc' ! unat f = mc ! unat f + of_nat (length (filter (maps_frame f) ps))"
      by auto
    have res: "fork_ptes (p # ps) mc = Inr (map cow_downgrade (p # ps), map cow_downgrade (p # ps), mc')"
      using False mc'(1) by (simp add: Let_def)
    have nm: "\<not> maps_frame f p" for f using False by (simp add: maps_frame_def)
    from res mc'(2,3) nm show ?thesis by auto
  qed
qed

lemma nr_mappings_Cons:
  "nr_mappings (d # pt) f =
     (case d of None \<Rightarrow> 0 | Some ps \<Rightarrow> length (filter (maps_frame f) ps)) + nr_mappings pt f"
  by (simp add: nr_mappings_def ptes_of_def split: option.splits)

lemma ptes_of_Cons:
  "ptes_of (d # pt) = (case d of None \<Rightarrow> [] | Some ps \<Rightarrow> ps) @ ptes_of pt"
  by (simp add: ptes_of_def)

lemma fork_outer_spec:
  assumes "length js = length pt"
    and "\<forall>p \<in> set (ptes_of pt). pte_valid p \<longrightarrow> unat (pte_pfn p) < length mc"
  shows "\<exists>mc'. fork_outer pt js mc =
             Inr (map (map_option (map cow_downgrade)) pt, map2 child_slot pt js, mc')
           \<and> length mc' = length mc
           \<and> (\<forall>f. unat f < length mc \<longrightarrow> mc' ! unat f = mc ! unat f + of_nat (nr_mappings pt f))"
  using assms
proof (induction pt js arbitrary: mc rule: list_induct2')
  case 1
  then show ?case by (simp add: nr_mappings_def ptes_of_def)
next
  case (2 d ds)
  then show ?case by simp
next
  case (3 j js)
  then show ?case by simp
next
  case (4 d ds j js)
  from 4(2) have len: "length js = length ds" by simp
  show ?case
  proof (cases d)
    case None
    from 4(3) None have "\<forall>p \<in> set (ptes_of ds). pte_valid p \<longrightarrow> unat (pte_pfn p) < length mc"
      by (simp add: ptes_of_Cons)
    from 4(1) [OF len this] obtain mc' where mc':
      "fork_outer ds js mc = Inr (map (map_option (map cow_downgrade)) ds, map2 child_slot ds js, mc')"
      "length mc' = length mc"
      "\<forall>f. unat f < length mc \<longrightarrow> mc' ! unat f = mc ! unat f + of_nat (nr_mappings ds f)"
      by auto
    with None show ?thesis by (simp add: child_slot_def nr_mappings_Cons)
  next
    case (Some ps)
    from 4(3) Some have a: "\<forall>p \<in> set ps. pte_valid p \<longrightarrow> unat (pte_pfn p) < length mc"
      and b: "\<forall>p \<in> set (ptes_of ds). pte_valid p \<longrightarrow> unat (pte_pfn p) < length mc"
      by (simp_all add: ptes_of_Cons)
    from fork_ptes_spec [OF a] obtain mc1 where mc1:
      "fork_ptes ps mc = Inr (map cow_downgrade ps, map cow_downgrade ps, mc1)"
      "length mc1 = length mc"
      "\<forall>f. unat f < length mc \<longrightarrow>
          mc1 ! unat f = mc ! unat f + of_nat (length (filter (maps_frame f) ps))"
      by auto
    from b mc1(2) have "\<forall>p \<in> set (ptes_of ds). pte_valid p \<longrightarrow> unat (pte_pfn p) < length mc1"
      by simp
    from 4(1) [OF len this] mc1(2) obtain mc' where mc':
      "fork_outer ds js mc1 = Inr (map (map_option (map cow_downgrade)) ds, map2 child_slot ds js, mc')"
      "length mc' = length mc"
      "\<forall>f. unat f < length mc \<longrightarrow> mc' ! unat f = mc1 ! unat f + of_nat (nr_mappings ds f)"
      by auto
    have res: "fork_outer (d # ds) (j # js) mc =
       Inr (map (map_option (map cow_downgrade)) (d # ds), map2 child_slot (d # ds) (j # js), mc')"
      using Some mc1(1) mc'(1) by (simp add: child_slot_def)
    have cnt: "\<forall>f. unat f < length mc \<longrightarrow>
       mc' ! unat f = mc ! unat f + of_nat (nr_mappings (d # ds) f)"
      using Some mc1(3) mc'(3) by (simp add: nr_mappings_Cons add.assoc)
    from res mc'(2) cnt show ?thesis by blast
  qed
qed

lemma pte_at_parent:
  "pte_at N (map (map_option (map g)) pt) v = map_option g (pte_at N pt v)"
  by (auto simp: pte_at_def split: option.splits)

lemma pte_at_child:
  assumes "length js = length pt" and "pte_at N pt v = Some e"
  shows "pte_at N (map2 child_slot pt js) v = Some (cow_downgrade e)"
proof -
  from pte_at_Some [OF assms(2)] obtain d where d:
    "unat v div N < length pt" "pt ! (unat v div N) = Some d"
    "unat v mod N < length d" "d ! (unat v mod N) = e" by blast
  with assms(1) show ?thesis by (simp add: pte_at_def child_slot_def)
qed

lemma child_table_clean:
  assumes "length js = length pt" and "\<forall>d \<in> set js. d = None"
  shows "map2 child_slot pt js = map (map_option (map cow_downgrade)) pt"
  using assms
  by (induction js pt rule: list_induct2) (auto simp: child_slot_def split: option.splits)

text \<open>The operations on the queue.\<close>

lemmas queue_defs = node_at_def put_node_def set_next_def set_prev_def list_add_def
  list_add_tail_def list_del_def


lemma same_pages_refl: "same_pages s s"
  by (simp add: same_pages_def)

lemma same_pages_trans: "same_pages s s1 \<Longrightarrow> same_pages s1 s2 \<Longrightarrow> same_pages s s2"
  by (simp add: same_pages_def)

lemma same_pages_length: "same_pages s s' \<Longrightarrow> length (procs s') = length (procs s)"
  by (metis length_map same_pages_def)

lemma map_update_same: "i < length xs \<Longrightarrow> (map f xs)[i := f (xs ! i)] = map f xs"
  by (metis list_update_id nth_map)

lemma put_node_same_pages: "put_node s l h = Inr s' \<Longrightarrow> same_pages s s'"
  by (auto simp: put_node_def same_pages_def map_update map_update_same split: link.splits if_splits)

lemma set_next_Inr:
  assumes "set_next s l v = Inr s'"
  shows "same_pages s s'" and "valid_link s l"
    and "next_of s' y = (if y = l then v else next_of s y)" and "prev_of s' y = prev_of s y"
proof -
  from assms obtain h where h: "node_at s l = Inr h" "put_node s l (h\<lparr>next := v\<rparr>) = Inr s'"
    by (auto simp: set_next_def split: sum.splits)
  from h(2) show "same_pages s s'" by (rule put_node_same_pages)
  from h(1) show "valid_link s l"
    by (auto simp: node_at_def valid_link_def split: link.splits if_splits)
  from h show "next_of s' y = (if y = l then v else next_of s y)"
    by (cases l; cases y) (auto simp: node_at_def put_node_def next_of_def nth_list_update split: if_splits)
  from h show "prev_of s' y = prev_of s y"
    by (cases l; cases y) (auto simp: node_at_def put_node_def prev_of_def nth_list_update split: if_splits)
qed

lemma set_prev_Inr:
  assumes "set_prev s l v = Inr s'"
  shows "same_pages s s'" and "valid_link s l"
    and "prev_of s' y = (if y = l then v else prev_of s y)" and "next_of s' y = next_of s y"
proof -
  from assms obtain h where h: "node_at s l = Inr h" "put_node s l (h\<lparr>prev := v\<rparr>) = Inr s'"
    by (auto simp: set_prev_def split: sum.splits)
  from h(2) show "same_pages s s'" by (rule put_node_same_pages)
  from h(1) show "valid_link s l"
    by (auto simp: node_at_def valid_link_def split: link.splits if_splits)
  from h show "prev_of s' y = (if y = l then v else prev_of s y)"
    by (cases l; cases y) (auto simp: node_at_def put_node_def prev_of_def nth_list_update split: if_splits)
  from h show "next_of s' y = next_of s y"
    by (cases l; cases y) (auto simp: node_at_def put_node_def next_of_def nth_list_update split: if_splits)
qed

lemma set_next_valid: "valid_link s l \<Longrightarrow> \<exists>s'. set_next s l v = Inr s'"
  by (cases l) (auto simp: valid_link_def set_next_def node_at_def put_node_def)

lemma set_prev_valid: "valid_link s l \<Longrightarrow> \<exists>s'. set_prev s l v = Inr s'"
  by (cases l) (auto simp: valid_link_def set_prev_def node_at_def put_node_def)

lemma valid_link_same_pages: "same_pages s s' \<Longrightarrow> valid_link s' l = valid_link s l"
  by (simp add: valid_link_def same_pages_length split: link.splits)

lemma list_add_Inr:
  assumes "valid_link s new" and "valid_link s pv" and "valid_link s nx"
  shows "\<exists>s'. list_add s new pv nx = Inr s' \<and> same_pages s s'
     \<and> (\<forall>y. next_of s' y = (if y = pv then new else if y = new then nx else next_of s y))
     \<and> (\<forall>y. prev_of s' y = (if y = new then pv else if y = nx then new else prev_of s y))"
proof -
  from set_prev_valid [OF assms(3)] obtain s1 where s1: "set_prev s nx new = Inr s1" by blast
  note a1 = set_prev_Inr [OF s1]
  from assms(1) a1(1) have "valid_link s1 new" by (simp add: valid_link_same_pages)
  from set_next_valid [OF this] obtain s2 where s2: "set_next s1 new nx = Inr s2" by blast
  note a2 = set_next_Inr [OF s2]
  from assms(1) a1(1) a2(1) have "valid_link s2 new" by (simp add: valid_link_same_pages)
  from set_prev_valid [OF this] obtain s3 where s3: "set_prev s2 new pv = Inr s3" by blast
  note a3 = set_prev_Inr [OF s3]
  from assms(2) a1(1) a2(1) a3(1) have "valid_link s3 pv" by (simp add: valid_link_same_pages)
  from set_next_valid [OF this] obtain s4 where s4: "set_next s3 pv new = Inr s4" by blast
  note a4 = set_next_Inr [OF s4]
  have res: "list_add s new pv nx = Inr s4"
    by (simp add: list_add_def s1 s2 s3 s4)
  have same: "same_pages s s4"
    using a1(1) a2(1) a3(1) a4(1) by (blast intro: same_pages_trans)
  have nx: "\<forall>y. next_of s4 y = (if y = pv then new else if y = new then nx else next_of s y)"
    by (simp add: a4(3) a3(4) a2(3) a1(4))
  have pv: "\<forall>y. prev_of s4 y = (if y = new then pv else if y = nx then new else prev_of s y)"
    by (simp add: a4(4) a3(3) a2(4) a1(3))
  from res same nx pv show ?thesis by blast
qed

lemma chain_last: "chain s x q \<Longrightarrow> prev_of s Head = last (x # map Node q)"
  by (induction q arbitrary: x) auto

lemma chain_append:
  assumes "chain s x q" and "c \<notin> set q" and "x \<noteq> Node c" and "distinct q" and "x \<notin> Node ` set q"
    and N: "\<forall>y. next_of s' y =
             (if y = last (x # map Node q) then Node c else if y = Node c then Head else next_of s y)"
    and P: "\<forall>y. prev_of s' y =
             (if y = Node c then last (x # map Node q) else if y = Head then Node c else prev_of s y)"
  shows "chain s' x (q @ [c])"
  using assms
proof (induction q arbitrary: x)
  case Nil
  then show ?case by simp
next
  case (Cons a as)
  from Cons.prems(1) have c: "next_of s x = Node a" "prev_of s (Node a) = x" "chain s (Node a) as"
    by simp_all
  have last: "last (x # map Node (a # as)) = last (Node a # map Node as)" by simp
  have mem: "last (Node a # map Node as) \<in> Node ` set (a # as)"
    by (metis last_in_set list.simps(9) list.set_map list.distinct(1))
  with Cons.prems(5) have xl: "x \<noteq> last (Node a # map Node as)" by metis
  from Cons.prems(6) xl Cons.prems(3) c(1) last have n1: "next_of s' x = Node a" by simp
  from Cons.prems(7) Cons.prems(2) c(2) have p1: "prev_of s' (Node a) = x" by simp
  have "chain s' (Node a) (as @ [c])"
  proof (rule Cons.IH [OF c(3)])
    show "c \<notin> set as" using Cons.prems(2) by simp
    show "Node a \<noteq> Node c" using Cons.prems(2) by simp
    show "distinct as" using Cons.prems(4) by simp
    show "Node a \<notin> Node ` set as" using Cons.prems(4) by auto
    show "\<forall>y. next_of s' y =
             (if y = last (Node a # map Node as) then Node c else if y = Node c then Head else next_of s y)"
      using Cons.prems(6) last by simp
    show "\<forall>y. prev_of s' y =
             (if y = Node c then last (Node a # map Node as) else if y = Head then Node c else prev_of s y)"
      using Cons.prems(7) last by simp
  qed
  with n1 p1 show ?case by simp
qed

lemma chain_valid_last:
  assumes "list_all (\<lambda>a. a < length (procs s)) q" and "valid_link s x"
  shows "valid_link s (last (x # map Node q))"
  using assms by (induction q arbitrary: x) (auto simp: valid_link_def)

lemma list_add_tail_queue:
  assumes q: "queue_is s q" and c: "c < length (procs s)" "c \<notin> set q"
  shows "\<exists>s'. list_add_tail s (Node c) Head = Inr s' \<and> queue_is s' (q @ [c]) \<and> same_pages s s'"
proof -
  from q have ch: "chain s Head q" and dq: "distinct q" and vq: "list_all (\<lambda>a. a < length (procs s)) q"
    by (simp_all add: queue_is_def)
  let ?pv = "last (Head # map Node q)"
  from chain_last [OF ch] have pv: "prev (processes s) = ?pv" by (simp add: prev_of_def)
  have v: "valid_link s (Node c)" "valid_link s ?pv" "valid_link s Head"
    using c(1) chain_valid_last [OF vq, of Head] by (simp_all add: valid_link_def)
  from list_add_Inr [OF v] obtain s' where s': "list_add s (Node c) ?pv Head = Inr s'"
    "same_pages s s'"
    "\<forall>y. next_of s' y = (if y = ?pv then Node c else if y = Node c then Head else next_of s y)"
    "\<forall>y. prev_of s' y = (if y = Node c then ?pv else if y = Head then Node c else prev_of s y)"
    by blast
  have res: "list_add_tail s (Node c) Head = Inr s'"
    using s'(1) pv by (simp add: list_add_tail_def node_at_def)
  have "chain s' Head (q @ [c])"
    by (rule chain_append [OF ch c(2) _ dq _ s'(3,4)]) auto
  with dq vq c same_pages_length [OF s'(2)] have "queue_is s' (q @ [c])"
    by (simp add: queue_is_def)
  with res s'(2) show ?thesis by blast
qed

lemma find_pid_chain:
  assumes "chain s x q" and "\<forall>a \<in> set q. a < length (procs s) \<and> pid (procs s ! a) \<noteq> p"
    and "length q < n"
  shows "find_pid n s (next_of s x) p = Inr None"
  using assms
proof (induction q arbitrary: x n)
  case Nil
  then show ?case by (cases n) simp_all
next
  case (Cons a as)
  from Cons.prems(3) obtain m where n: "n = Suc m" "length as < m" by (cases n) auto
  from Cons.prems(1) have c: "next_of s x = Node a" "chain s (Node a) as" by simp_all
  from Cons.prems(2) have "\<forall>b \<in> set as. b < length (procs s) \<and> pid (procs s ! b) \<noteq> p" by simp
  from Cons.IH [OF c(2) this n(2)] Cons.prems(2) c(1) n(1)
  show ?case by (simp add: next_of_def)
qed

lemma queue_length:
  assumes "queue_is s q"
  shows "length q \<le> length (procs s)"
proof -
  from assms have d: "distinct q" and "set q \<subseteq> {..<length (procs s)}"
    by (auto simp: queue_is_def list_all_iff)
  then have "card (set q) \<le> card {..<length (procs s)}" by (intro card_mono) auto
  with d show ?thesis by (simp add: distinct_card)
qed

lemma find_pid_queue:
  assumes "queue_is s q" and "\<forall>a \<in> set q. pid (procs s ! a) \<noteq> p"
  shows "find_pid (Suc (length (procs s))) s (next (processes s)) p = Inr None"
proof -
  from assms(1) have ch: "chain s Head q" and v: "\<forall>a \<in> set q. a < length (procs s)"
    by (simp_all add: queue_is_def list_all_iff)
  from find_pid_chain [OF ch, of p "Suc (length (procs s))"] v assms(2) queue_length [OF assms(1)]
  show ?thesis by (simp add: next_of_def)
qed

lemma same_pages_nth:
  assumes "same_pages s s'" and "a < length (procs s)"
  shows "pagetable (procs s' ! a) = pagetable (procs s ! a)" and "pid (procs s' ! a) = pid (procs s ! a)"
proof -
  from assms have l: "a < length (procs s')" by (simp add: same_pages_length)
  from assms(1) have "map pagetable (procs s') ! a = map pagetable (procs s) ! a"
    and "map pid (procs s') ! a = map pid (procs s) ! a"
    by (simp_all add: same_pages_def)
  with l assms(2) show "pagetable (procs s' ! a) = pagetable (procs s ! a)"
    and "pid (procs s' ! a) = pid (procs s ! a)" by simp_all
qed

lemma list_add_tail_same_pages:
  assumes "list_add_tail s new head = Inr s'"
  shows "same_pages s s'"
proof -
  from assms obtain h :: list_head where "list_add s new (prev h) head = Inr s'"
    by (auto simp: list_add_tail_def split: sum.splits)
  then obtain s1 s2 s3 where "set_prev s head new = Inr s1" "set_next s1 new head = Inr s2"
    "set_prev s2 new (prev h) = Inr s3" "set_next s3 (prev h) new = Inr s'"
    by (auto simp: list_add_def split: sum.splits)
  then show ?thesis
    by (blast intro: same_pages_trans set_prev_Inr(1) set_next_Inr(1))
qed

lemma list_del_same_pages:
  assumes "list_del poison s entry = Inr s'"
  shows "same_pages s s'"
proof -
  from assms obtain h h2 :: list_head and s1 s2 where "set_prev s (next h) (prev h) = Inr s1"
    "set_next s1 (prev h) (next h) = Inr s2" "put_node s2 entry (poison entry h2) = Inr s'"
    by (auto simp: list_del_def split: sum.splits)
  then show ?thesis
    by (blast intro: same_pages_trans set_prev_Inr(1) set_next_Inr(1) put_node_same_pages)
qed

lemma chain_cong:
  assumes "\<forall>y \<in> insert Head (insert x (Node ` set q)).
             next_of s' y = next_of s y \<and> prev_of s' y = prev_of s y"
  shows "chain s' x q = chain s x q"
  using assms by (induction q arbitrary: x) auto

lemma find_pid_Some:
  "find_pid n s pos p = Inr (Some a) \<Longrightarrow> a < length (procs s) \<and> pid (procs s ! a) = p"
  by (induction n s pos p rule: find_pid.induct) (auto split: link.splits if_splits)

text \<open>
  \<^verbatim>\<open>switch_process\<close> with the pid of the current process, which no process of the
  queue has, calls \<^verbatim>\<open>list_del\<close> on the node of the current process; when one of
  its links addresses no node the call is undefined behaviour.
\<close>

lemma switch_process_own_pid_wild:
  assumes wf: "wf_state N F s" and q: "queue_is s q"
    and uniq: "\<forall>a \<in> set q. pid (procs s ! a) \<noteq> pid (procs s ! current s)"
    and wild: "next (list_node (procs s ! current s)) = Wild
               \<or> prev (list_node (procs s ! current s)) = Wild"
  shows "switch_process poison junk s (pid (procs s ! current s)) = Inl BadPointer"
proof -
  note d = wf_stateD [OF wf]
  let ?s1 = "s\<lparr>tlb := map tlb_flush (tlb s)\<rparr>"
  have nx: "next_of ?s1 = next_of s" "prev_of ?s1 = prev_of s"
    by (simp_all add: next_of_def prev_of_def fun_eq_iff split: link.splits)
  have "chain ?s1 Head q = chain s Head q" by (rule chain_cong) (simp add: nx)
  with q have q1: "queue_is ?s1 q" by (simp add: queue_is_def)
  from find_pid_queue [OF q1, of "pid (procs s ! current s)"] uniq
  have f: "find_pid (Suc (length (procs s))) ?s1 (next (processes s)) (pid (procs s ! current s)) = Inr None"
    by (simp del: find_pid.simps)
  have del: "list_del poison ?s1 (Node (current s)) = Inl BadPointer"
    using wild d(4,5)
    by (cases "next (list_node (procs s ! current s))"; cases "prev (list_node (procs s ! current s))")
       (auto simp: list_del_def node_at_def put_node_def set_next_def set_prev_def split: sum.splits)
  from f del d(4,5) show ?thesis by (simp add: switch_process_def Let_def del: find_pid.simps)
qed

lemma queue_is_flush: "queue_is (s\<lparr>tlb := t\<rparr>) q = queue_is s q"
proof -
  have "next_of (s\<lparr>tlb := t\<rparr>) = next_of s" "prev_of (s\<lparr>tlb := t\<rparr>) = prev_of s"
    by (simp_all add: next_of_def prev_of_def fun_eq_iff split: link.splits)
  then have "chain (s\<lparr>tlb := t\<rparr>) Head q = chain s Head q" by (intro chain_cong) simp
  then show ?thesis by (simp add: queue_is_def)
qed

lemma queue_is_pointers: "queue_is (s\<lparr>current := c, ptbr := b\<rparr>) q = queue_is s q"
proof -
  have "next_of (s\<lparr>current := c, ptbr := b\<rparr>) = next_of s"
    "prev_of (s\<lparr>current := c, ptbr := b\<rparr>) = prev_of s"
    by (simp_all add: next_of_def prev_of_def fun_eq_iff split: link.splits)
  then have "chain (s\<lparr>current := c, ptbr := b\<rparr>) Head q = chain s Head q" by (intro chain_cong) simp
  then show ?thesis by (simp add: queue_is_def)
qed

lemma queue_is_fork_store:
  assumes q: "queue_is s q" and c: "c < length (procs s)"
  shows "queue_is (s\<lparr>procs := list_update (procs s) c ((procs s ! c)\<lparr>pagetable := pt'\<rparr>) @ [child],
                    mapcounts := mc'\<rparr>) q"
proof -
  let ?s' = "s\<lparr>procs := list_update (procs s) c ((procs s ! c)\<lparr>pagetable := pt'\<rparr>) @ [child],
                mapcounts := mc'\<rparr>"
  from q have v: "\<forall>a \<in> set q. a < length (procs s)" by (simp add: queue_is_def list_all_iff)
  have same: "next_of ?s' y = next_of s y \<and> prev_of ?s' y = prev_of s y"
    if "y \<in> insert Head (insert Head (Node ` set q))" for y
  proof (cases y)
    case Head
    then show ?thesis by (simp add: next_of_def prev_of_def)
  next
    case (Node a)
    with that v have "a < length (procs s)" by auto
    with Node c show ?thesis
      by (cases "a = c") (simp_all add: next_of_def prev_of_def nth_append)
  next
    case Wild
    then show ?thesis by (simp add: next_of_def prev_of_def)
  qed
  then have "chain ?s' Head q = chain s Head q" by (intro chain_cong) blast
  with q v show ?thesis by (simp add: queue_is_def list_all_iff less_Suc_eq)
qed

text \<open>
  What the fork does establish. In a well-formed state whose queue holds the
  processes \<open>q\<close>, \<^verbatim>\<open>switch_process\<close> with a pid that neither a process of the
  queue nor the current one has returns: a new process with that pid is current
  and \<^verbatim>\<open>ptbr\<close> points at it, the queue holds \<open>q\<close> and then the parent, every PTE
  of the parent with \<open>rw\<close> read-write has \<open>rw\<close> read and is otherwise unchanged,
  the child has the same PTE at every page the parent has one, and the counter
  of a frame grows by the number of valid PTEs of the parent that map it. The
  two page tables are equal when the block of the child holds null pointers.
\<close>

theorem switch_process_fork:
  assumes wf: "wf_state N F s" and q: "queue_is s q" and cq: "current s \<notin> set q"
    and notq: "\<forall>a \<in> set q. pid (procs s ! a) \<noteq> p"
    and notcur: "pid (procs s ! current s) \<noteq> p"
    and junk: "length (pagetable junk) = N"
    and frames: "\<forall>e \<in> set (ptes_of (pagetable (procs s ! current s))).
                   pte_valid e \<longrightarrow> unat (pte_pfn e) < F"
  shows "\<exists>s'. switch_process poison junk s p = Inr s'
     \<and> current s' = length (procs s) \<and> ptbr s' = current s'
     \<and> length (procs s') = Suc (length (procs s))
     \<and> pid (procs s' ! current s') = p
     \<and> queue_is s' (q @ [current s])
     \<and> pid (procs s' ! current s) = pid (procs s ! current s)
     \<and> (\<forall>v e. pte_at N (pagetable (procs s ! current s)) v = Some e \<longrightarrow>
           pte_at N (pagetable (procs s' ! current s)) v =
             Some (if pte_rw e = ACCESS_READ + ACCESS_WRITE then e\<lparr>pte_rw := ACCESS_READ\<rparr> else e)
         \<and> pte_at N (pagetable (procs s' ! current s')) v =
             pte_at N (pagetable (procs s' ! current s)) v)
     \<and> (\<forall>v. pte_at N (pagetable (procs s ! current s)) v = None \<longrightarrow>
           pte_at N (pagetable (procs s' ! current s)) v = None)
     \<and> ((\<forall>d \<in> set (pagetable junk). d = None) \<longrightarrow>
           pagetable (procs s' ! current s') = pagetable (procs s' ! current s))
     \<and> length (mapcounts s') = F
     \<and> (\<forall>f. unat f < F \<longrightarrow>
           mapcounts s' ! unat f =
             mapcounts s ! unat f + of_nat (nr_mappings (pagetable (procs s ! current s)) f))
     \<and> (\<forall>a < length (procs s). a \<noteq> current s \<longrightarrow>
           pagetable (procs s' ! a) = pagetable (procs s ! a) \<and> pid (procs s' ! a) = pid (procs s ! a))
     \<and> tlb s' = map tlb_flush (tlb s)"
proof -
  note d = wf_stateD [OF wf]
  let ?s1 = "s\<lparr>tlb := map tlb_flush (tlb s)\<rparr>"
  let ?pt = "pagetable (procs s ! current s)"
  let ?pt' = "map (map_option (map cow_downgrade)) ?pt"
  let ?cpt = "map2 child_slot ?pt (pagetable junk)"
  from q have q1: "queue_is ?s1 q" by (simp add: queue_is_flush)
  from find_pid_queue [OF q1, of p] notq
  have f: "find_pid (Suc (length (procs s))) ?s1 (next (processes s)) p = Inr None"
    by (simp del: find_pid.simps)
  from d(5,6) junk have len: "length (pagetable junk) = length ?pt" by simp
  from frames d(3) have fr: "\<forall>e \<in> set (ptes_of ?pt). pte_valid e \<longrightarrow> unat (pte_pfn e) < length (mapcounts s)"
    by simp
  from fork_outer_spec [OF len fr] d(3) obtain mc' where mc':
    "fork_outer ?pt (pagetable junk) (mapcounts s) = Inr (?pt', ?cpt, mc')"
    "length mc' = F"
    "\<forall>f. unat f < F \<longrightarrow> mc' ! unat f = mapcounts s ! unat f + of_nat (nr_mappings ?pt f)"
    by auto
  define s3 where "s3 = ?s1\<lparr>procs := list_update (procs ?s1) (current s)
         ((procs ?s1 ! current s)\<lparr>pagetable := ?pt'\<rparr>) @ [junk\<lparr>pid := p, pagetable := ?cpt\<rparr>],
       mapcounts := mc'\<rparr>"
  have c1: "current s < length (procs ?s1)" using d(4,5) by simp
  have q3: "queue_is s3 q" unfolding s3_def by (rule queue_is_fork_store [OF q1 c1])
  have c3: "current s < length (procs s3)" using d(4,5) by (simp add: s3_def)
  from list_add_tail_queue [OF q3 c3 cq] obtain s4 where s4:
    "list_add_tail s3 (Node (current s)) Head = Inr s4" "queue_is s4 (q @ [current s])"
    "same_pages s3 s4" by blast
  define s' where "s' = s4\<lparr>current := length (procs s), ptbr := length (procs s)\<rparr>"
  have res: "switch_process poison junk s p = Inr s'"
    using f d(4,5) notcur mc'(1) s4(1)
    by (simp add: switch_process_def Let_def s3_def s'_def del: find_pid.simps)
  have l3: "length (procs s3) = Suc (length (procs s))" by (simp add: s3_def)
  have parent3: "procs s3 ! current s = (procs s ! current s)\<lparr>pagetable := ?pt'\<rparr>"
    using d(4,5) by (simp add: s3_def nth_append)
  have child3: "procs s3 ! length (procs s) = junk\<lparr>pid := p, pagetable := ?cpt\<rparr>"
    by (simp add: s3_def nth_append)
  have others3: "\<forall>a < length (procs s). a \<noteq> current s \<longrightarrow> procs s3 ! a = procs s ! a"
    by (simp add: s3_def nth_append)
  have nth: "pagetable (procs s' ! a) = pagetable (procs s3 ! a) \<and> pid (procs s' ! a) = pid (procs s3 ! a)"
    if "a < Suc (length (procs s))" for a
    using same_pages_nth [OF s4(3), of a] that l3 by (simp add: s'_def)
  have parent: "pagetable (procs s' ! current s) = ?pt'" "pid (procs s' ! current s) = pid (procs s ! current s)"
    using nth [of "current s"] d(4,5) parent3 by simp_all
  have child: "pagetable (procs s' ! current s') = ?cpt" "pid (procs s' ! current s') = p"
    using nth [of "length (procs s)"] child3 by (simp_all add: s'_def)
  have others: "\<forall>a < length (procs s). a \<noteq> current s \<longrightarrow>
           pagetable (procs s' ! a) = pagetable (procs s ! a) \<and> pid (procs s' ! a) = pid (procs s ! a)"
    using nth others3 by (simp add: less_Suc_eq)
  have basics: "current s' = length (procs s)" "ptbr s' = current s'"
    "length (procs s') = Suc (length (procs s))"
    "length (mapcounts s') = F" "tlb s' = map tlb_flush (tlb s)" "mapcounts s' = mc'"
    using mc'(2) s4(3) same_pages_length [OF s4(3)] l3
    by (simp_all add: s'_def same_pages_def s3_def)
  have queue: "queue_is s' (q @ [current s])"
    unfolding s'_def using s4(2) by (simp add: queue_is_pointers)
  have ptes: "pte_at N (pagetable (procs s' ! current s)) v =
             Some (if pte_rw e = ACCESS_READ + ACCESS_WRITE then e\<lparr>pte_rw := ACCESS_READ\<rparr> else e)
         \<and> pte_at N (pagetable (procs s' ! current s')) v =
             pte_at N (pagetable (procs s' ! current s)) v"
    if "pte_at N ?pt v = Some e" for v e
    using that pte_at_child [OF len that]
    by (simp add: parent child pte_at_parent cow_downgrade_def)
  have absent: "pte_at N (pagetable (procs s' ! current s)) v = None"
    if "pte_at N ?pt v = None" for v
    using that by (simp add: parent pte_at_parent)
  have clean: "pagetable (procs s' ! current s') = pagetable (procs s' ! current s)"
    if "\<forall>d \<in> set (pagetable junk). d = None"
    using child_table_clean [OF len that] by (simp add: parent child)
  from res basics queue parent(2) child(2) others ptes absent clean mc'(3)
  show ?thesis by (intro exI [of _ s']) simp
qed

text \<open>The fork of the state with one page, with a cleared block for the child.\<close>

lemma fork_example:
  "switch_process poison zero_process one_page_state 1 = Inr forked_state"
  by (simp add: switch_process_def queue_defs tlb_flush_def cow_downgrade_def
      ACCESS_READ_def ACCESS_WRITE_def Let_def state_defs)


text \<open>How the state with a sole owner comes about from the state after the fork.\<close>

lemma sole_owner_state_trace:
  "free_page 2 forked_state 0 =
     Inr (forked_state\<lparr>procs :=
            [\<lparr>pid = 0, pagetable = [Some [shared_pte 0, invalid_pte], None],
              list_node = \<lparr>next = Head, prev = Head\<rparr>\<rparr>,
             \<lparr>pid = 1, pagetable = [Some [invalid_pte, invalid_pte], None],
              list_node = null_links\<rparr>],
          mapcounts := [1, 0, 0]\<rparr>)
   \<and> switch_process list_poison zero_process
        (forked_state\<lparr>procs :=
            [\<lparr>pid = 0, pagetable = [Some [shared_pte 0, invalid_pte], None],
              list_node = \<lparr>next = Head, prev = Head\<rparr>\<rparr>,
             \<lparr>pid = 1, pagetable = [Some [invalid_pte, invalid_pte], None],
              list_node = null_links\<rparr>],
          mapcounts := [1, 0, 0]\<rparr>) 0 = Inr sole_owner_state"
  by (simp add: free_page_def switch_process_def queue_defs tlb_flush_def
      tlb_invalidate_def Let_def state_defs)


text \<open>
  Claim C2 does not hold of the code where \<^verbatim>\<open>malloc\<close> returns a block with old
  content. From the state after \<^verbatim>\<open>alloc_page(0, 3)\<close>, \<^verbatim>\<open>switch_process(1)\<close>
  forks; the slot of the child's outer table whose directory the parent lacks
  is never written and keeps the content of the block, so the child has a
  valid PTE at page 2, where the parent has none.
\<close>

theorem switch_process_fork_uncleared_block:
  "switch_process list_poison junk_process one_page_state 1 =
     Inr (forked_state\<lparr>procs :=
       [\<lparr>pid = 0, pagetable = [Some [shared_pte 0, invalid_pte], None],
         list_node = \<lparr>next = Head, prev = Head\<rparr>\<rparr>,
        \<lparr>pid = 1, pagetable = [Some [shared_pte 0, invalid_pte], Some junk_directory],
         list_node = \<lparr>next = Node 7, prev = Wild\<rparr>\<rparr>]\<rparr>)
   \<and> pte_at 2 [Some [shared_pte 0, invalid_pte], None] 2 = None
   \<and> pte_at 2 [Some [shared_pte 0, invalid_pte], Some junk_directory] 2
        = Some \<lparr>pte_valid = True, pte_rw = 3, pte_pfn = 9, pte_private = 0\<rparr>"
  by (simp add: switch_process_def queue_defs tlb_flush_def cow_downgrade_def pte_at_def
      ACCESS_READ_def ACCESS_WRITE_def Let_def state_defs)

text \<open>
  Claim C6 does not hold of the code. In the state after the fork the current
  process is the child, with pid 1, and the fork never wrote its \<^verbatim>\<open>list\<close>
  member: in a cleared block its links are null. \<^verbatim>\<open>switch_process(1)\<close> finds no
  process with pid 1 in the queue and calls \<^verbatim>\<open>list_del\<close> on the node of the
  child, which dereferences those links: undefined behaviour, not a return
  with the state as it was.
\<close>

theorem switch_process_own_pid_null_links:
  "current forked_state = 1 \<and> pid (procs forked_state ! 1) = 1
   \<and> list_node (procs forked_state ! 1) = null_links
   \<and> switch_process list_poison zero_process forked_state 1 = Inl BadPointer"
  by (simp add: switch_process_def queue_defs tlb_flush_def Let_def state_defs)


section \<open>Where the operations keep the reference counts\<close>

lemma nr_mappings_sum: "nr_mappings pt f = sum_list (map (dir_mappings f) pt)"
  by (induction pt) (simp_all add: nr_mappings_Cons dir_mappings_def, simp add: nr_mappings_def ptes_of_def)

lemma count_update:
  "i < length xs \<Longrightarrow>
   length (filter P (xs[i := y])) + (if P (xs ! i) then 1 else 0) =
   length (filter P xs) + (if P y then 1 else 0)"
proof (induction xs arbitrary: i)
  case Nil
  then show ?case by simp
next
  case (Cons x xs)
  then show ?case by (cases i) auto
qed

lemma sum_list_map_update:
  fixes g :: "'a \<Rightarrow> nat"
  shows "i < length xs \<Longrightarrow>
   sum_list (map g (xs[i := y])) + g (xs ! i) = sum_list (map g xs) + g y"
proof (induction xs arbitrary: i)
  case Nil
  then show ?case by simp
next
  case (Cons x xs)
  then show ?case by (cases i) auto
qed

lemma nr_mappings_update:
  assumes "oi < length pt" and "pt ! oi = Some d" and "pi < length d"
  shows "nr_mappings (pt[oi := Some (d[pi := p'])]) f + (if maps_frame f (d ! pi) then 1 else 0) =
         nr_mappings pt f + (if maps_frame f p' then 1 else 0)"
proof -
  from sum_list_map_update [OF assms(1), of "dir_mappings f" "Some (d[pi := p'])"] assms(2)
  have "nr_mappings (pt[oi := Some (d[pi := p'])]) f + length (filter (maps_frame f) d) =
        nr_mappings pt f + length (filter (maps_frame f) (d[pi := p']))"
    by (simp add: nr_mappings_sum dir_mappings_def)
  with count_update [OF assms(3), of "maps_frame f" p'] show ?thesis by (simp split: if_splits)
qed

lemma total_mappings_update:
  assumes "a < length ps"
  shows "total_mappings (ps[a := (ps ! a)\<lparr>pagetable := pt'\<rparr>]) f + nr_mappings (pagetable (ps ! a)) f =
         total_mappings ps f + nr_mappings pt' f"
  using sum_list_map_update [OF assms, of "\<lambda>p. nr_mappings (pagetable p) f" "(ps ! a)\<lparr>pagetable := pt'\<rparr>"]
  by (simp add: total_mappings_def)

lemma total_mappings_pte_update:
  assumes "a < length ps" and "oi < length (pagetable (ps ! a))"
    and "pagetable (ps ! a) ! oi = Some d" and "pi < length d"
  shows "total_mappings (ps[a := (ps ! a)\<lparr>pagetable := (pagetable (ps ! a))[oi := Some (d[pi := p'])]\<rparr>]) f
           + (if maps_frame f (d ! pi) then 1 else 0) =
         total_mappings ps f + (if maps_frame f p' then 1 else 0)"
  using total_mappings_update [OF assms(1), of "(pagetable (ps ! a))[oi := Some (d[pi := p'])]" f]
    nr_mappings_update [OF assms(2,3,4), of p' f]
  by (simp split: if_splits)

lemma refcount_inv_iff:
  "refcount_inv s = (\<forall>f < length (mapcounts s). unat (mapcounts s ! f) = total_mappings (procs s) (of_nat f))"
  by (auto simp: refcount_inv_def list_all_iff)

lemma total_mappings_ge:
  assumes "a < length ps" and "oi < length (pagetable (ps ! a))"
    and "pagetable (ps ! a) ! oi = Some d" and "pi < length d" and "maps_frame f (d ! pi)"
  shows "0 < total_mappings ps f"
  using total_mappings_pte_update [OF assms(1-4), of "(d ! pi)\<lparr>pte_valid := False\<rparr>" f] assms(5)
  by (simp add: maps_frame_def)

text \<open>
  \<^verbatim>\<open>handle_page_fault\<close> keeps the counters in agreement with the page tables,
  whatever it is called with.
\<close>

lemma handle_page_fault_refcount_inv:
  assumes wf: "wf_state N F s" and inv: "refcount_inv s" and vpn: "unat vpn < N * N"
    and res: "handle_page_fault N F s vpn rw = Inr (b, s')"
  shows "refcount_inv s'"
proof (cases "\<exists>p. pte_at N (pagetable (procs s ! ptbr s)) vpn = Some p \<and> pte_valid p
     \<and> rw = ACCESS_WRITE \<and> pte_private p = ACCESS_READ + ACCESS_WRITE \<and> pte_rw p = ACCESS_READ
     \<and> unat (pte_pfn p) < F")
  case False
  note d = wf_stateD [OF wf]
  from vpn have ix: "unat vpn div N < N" "unat vpn mod N < N" using vpn_indices by blast+
  from False res d(1,3,4,6) d(7) [OF ix(1)] ix have "s' = s"
    unfolding handle_page_fault_def Let_def pte_at_def
    by (auto simp: add.commute split: option.splits if_splits)
  with inv show ?thesis by simp
next
  case True
  then obtain p where p: "pte_at N (pagetable (procs s ! ptbr s)) vpn = Some p" "pte_valid p"
    "rw = ACCESS_WRITE" "pte_private p = ACCESS_READ + ACCESS_WRITE" "pte_rw p = ACCESS_READ"
    "unat (pte_pfn p) < F" by blast
  note d = wf_stateD [OF wf]
  from vpn have ix: "unat vpn div N < N" "unat vpn mod N < N" using vpn_indices by blast+
  from pte_at_Some [OF p(1)] obtain dir where dir:
    "pagetable (procs s ! ptbr s) ! (unat vpn div N) = Some dir"
    "unat vpn mod N < length dir" "dir ! (unat vpn mod N) = p" by blast
  from handle_page_fault_cow [OF wf vpn p(1,2,5,4,6)] dir(1) res p(3)
  have eq: "Inr (b, s') =
     (if mapcounts s ! unat (pte_pfn p) = 1
      then Inr (True, s\<lparr>procs := (procs s)[ptbr s := (procs s ! ptbr s)\<lparr>pagetable :=
              (pagetable (procs s ! ptbr s))[unat vpn div N := Some (dir[unat vpn mod N :=
                 p\<lparr>pte_rw := ACCESS_READ + ACCESS_WRITE\<rparr>])]\<rparr>]\<rparr>)
      else case find_free_frame F (mapcounts s) 0 of
             Inl e \<Rightarrow> Inl e
           | Inr None \<Rightarrow> Inr (False, s)
           | Inr (Some i) \<Rightarrow>
               Inr (True, s\<lparr>procs := (procs s)[ptbr s := (procs s ! ptbr s)\<lparr>pagetable :=
                      (pagetable (procs s ! ptbr s))[unat vpn div N := Some (dir[unat vpn mod N :=
                         p\<lparr>pte_pfn := of_nat i, pte_rw := ACCESS_READ + ACCESS_WRITE\<rparr>])]\<rparr>],
                    mapcounts := ((mapcounts s)[unat (pte_pfn p) := mapcounts s ! unat (pte_pfn p) - 1])
                       [i := ((mapcounts s)[unat (pte_pfn p) := mapcounts s ! unat (pte_pfn p) - 1]) ! i + 1]\<rparr>))"
    by auto
  note upd = total_mappings_pte_update [OF d(4) _ dir(1,2), unfolded dir(3)]
  have oi: "unat vpn div N < length (pagetable (procs s ! ptbr s))" using d(6) ix(1) by simp
  from inv have I: "\<And>f. f < F \<Longrightarrow> unat (mapcounts s ! f) = total_mappings (procs s) (of_nat f)"
    using d(3) by (simp add: refcount_inv_iff)
  have pfn: "of_nat (unat (pte_pfn p)) = pte_pfn p" by simp
  have mapped: "maps_frame (pte_pfn p) p" using p(2) by (simp add: maps_frame_def)
  from total_mappings_ge [OF d(4) oi dir(1,2)] mapped dir(3)
  have pos: "0 < total_mappings (procs s) (pte_pfn p)" by simp
  with I [OF p(6)] have nz: "mapcounts s ! unat (pte_pfn p) \<noteq> 0"
    by (simp add: pfn unat_gt_0 [symmetric] del: unat_gt_0)
  show ?thesis
  proof (cases "mapcounts s ! unat (pte_pfn p) = 1")
    case True
    with eq have s': "s' = s\<lparr>procs := (procs s)[ptbr s := (procs s ! ptbr s)\<lparr>pagetable :=
              (pagetable (procs s ! ptbr s))[unat vpn div N := Some (dir[unat vpn mod N :=
                 p\<lparr>pte_rw := ACCESS_READ + ACCESS_WRITE\<rparr>])]\<rparr>]\<rparr>" by simp
    have "total_mappings (procs s') f = total_mappings (procs s) f" for f
      using upd [OF oi, of "p\<lparr>pte_rw := ACCESS_READ + ACCESS_WRITE\<rparr>" f]
      by (simp add: s' maps_frame_def split: if_splits)
    with I d(3) show ?thesis by (simp add: refcount_inv_iff s')
  next
    case False
    show ?thesis
    proof (cases "find_free_frame F (mapcounts s) 0")
      case (Inl e)
      with eq False show ?thesis by simp
    next
      case (Inr r)
      show ?thesis
      proof (cases r)
        case None
        with eq False Inr inv show ?thesis by simp
      next
        case (Some k)
        from find_free_frame_spec [of F "mapcounts s" 0] d(3) Inr Some
        have k: "k < F" "mapcounts s ! k = 0" by simp_all
        with nz have ko: "k \<noteq> unat (pte_pfn p)" by auto
        have uk: "unat (of_nat k :: 32 word) = k" by (rule unat_frame [OF k(1) d(2)])
        let ?p' = "p\<lparr>pte_pfn := of_nat k, pte_rw := ACCESS_READ + ACCESS_WRITE\<rparr>"
        from eq False Inr Some ko k have s': "s' = s\<lparr>procs := (procs s)[ptbr s := (procs s ! ptbr s)\<lparr>pagetable :=
                      (pagetable (procs s ! ptbr s))[unat vpn div N := Some (dir[unat vpn mod N := ?p'])]\<rparr>],
                    mapcounts := (mapcounts s)[unat (pte_pfn p) := mapcounts s ! unat (pte_pfn p) - 1, k := 1]\<rparr>"
          by simp
        have tot: "total_mappings (procs s') f + (if pte_pfn p = f then 1 else 0) =
                   total_mappings (procs s) f + (if of_nat k = f then 1 else 0)" for f
          using upd [OF oi, of ?p' f] p(2) by (simp add: s' maps_frame_def)
        have "unat (mapcounts s' ! f) = total_mappings (procs s') (of_nat f)" if f: "f < F" for f
        proof -
          have uf: "unat (of_nat f :: 32 word) = f" by (rule unat_frame [OF f d(2)])
          have e1: "(pte_pfn p = of_nat f) = (f = unat (pte_pfn p))" using uf by auto
          have e2: "((of_nat k :: 32 word) = of_nat f) = (f = k)" using uf uk by metis
          consider "f = unat (pte_pfn p)" | "f = k" | "f \<noteq> unat (pte_pfn p)" "f \<noteq> k" by blast
          then show ?thesis
          proof cases
            case 1
            with tot [of "of_nat f"] e1 e2 ko I [OF f] nz d(3) p(6) show ?thesis
              by (simp add: s' unat_minus_one)
          next
            case 2
            with tot [of "of_nat f"] e1 e2 ko I [OF f] k d(3) show ?thesis
              by (simp add: s')
          next
            case 3
            with tot [of "of_nat f"] e1 e2 I [OF f] show ?thesis
              by (simp add: s')
          qed
        qed
        then show ?thesis using d(3) by (simp add: refcount_inv_iff s')
      qed
    qed
  qed
qed

lemma nonneg_sint_unat:
  assumes "0 \<le> sint (w :: 32 word)"
  shows "nat (sint w) = unat w"
proof -
  from sint_lt [of w] have "sint w < 2 ^ 32" by simp
  with assms have "take_bit 32 (sint w) = sint w" by (simp add: take_bit_int_eq_self)
  then have "uint w = sint w" using uint_sint [of w] by simp
  then show ?thesis by (metis uint_nat nat_int)
qed

text \<open>\<^verbatim>\<open>free_page\<close> keeps the agreement when the page it frees is mapped.\<close>

lemma free_page_refcount_inv:
  assumes wf: "wf_state N F s" and inv: "refcount_inv s" and vpn: "unat vpn < N * N"
    and pte: "pte_at N (pagetable (procs s ! ptbr s)) vpn = Some p" and valid: "pte_valid p"
    and res: "free_page N s vpn = Inr s'"
  shows "refcount_inv s'"
proof -
  note d = wf_stateD [OF wf]
  from vpn have ix: "unat vpn div N < N" "unat vpn mod N < N" using vpn_indices by blast+
  from pte_at_Some [OF pte] obtain dir where dir:
    "pagetable (procs s ! ptbr s) ! (unat vpn div N) = Some dir"
    "unat vpn mod N < length dir" "dir ! (unat vpn mod N) = p" by blast
  have oi: "unat vpn div N < length (pagetable (procs s ! ptbr s))" using d(6) ix(1) by simp
  let ?p' = "p\<lparr>pte_valid := False, pte_rw := 0, pte_pfn := 0, pte_private := 0\<rparr>"
  from res d(1,3,4) oi dir have rng: "0 \<le> sint (pte_pfn p)" "nat (sint (pte_pfn p)) < F"
    unfolding free_page_def Let_def by (auto split: if_splits)
  from nonneg_sint_unat [OF rng(1)] rng(2) have o: "nat (sint (pte_pfn p)) = unat (pte_pfn p)"
    "unat (pte_pfn p) < F" by simp_all
  from res d(1,3,4) oi dir rng o(1)
  have s': "s' = s\<lparr>procs := (procs s)[ptbr s := (procs s ! ptbr s)\<lparr>pagetable :=
                      (pagetable (procs s ! ptbr s))[unat vpn div N := Some (dir[unat vpn mod N := ?p'])]\<rparr>],
                  mapcounts := (mapcounts s)[unat (pte_pfn p) := mapcounts s ! unat (pte_pfn p) - 1],
                  tlb := map (tlb_invalidate vpn) (tlb s)\<rparr>"
    unfolding free_page_def Let_def by (auto split: if_splits)
  note upd = total_mappings_pte_update [OF d(4) oi dir(1,2), unfolded dir(3)]
  from inv have I: "\<And>f. f < F \<Longrightarrow> unat (mapcounts s ! f) = total_mappings (procs s) (of_nat f)"
    using d(3) by (simp add: refcount_inv_iff)
  have mapped: "maps_frame (pte_pfn p) p" using valid by (simp add: maps_frame_def)
  from total_mappings_ge [OF d(4) oi dir(1,2)] mapped dir(3)
  have pos: "0 < total_mappings (procs s) (pte_pfn p)" by simp
  with I [OF o(2)] have nz: "mapcounts s ! unat (pte_pfn p) \<noteq> 0"
    by (simp add: unat_gt_0 [symmetric] del: unat_gt_0)
  have tot: "total_mappings (procs s') f + (if pte_pfn p = f then 1 else 0) =
             total_mappings (procs s) f" for f
    using upd [of ?p' f] valid by (simp add: s' maps_frame_def)
  have "unat (mapcounts s' ! f) = total_mappings (procs s') (of_nat f)" if f: "f < F" for f
  proof -
    have uf: "unat (of_nat f :: 32 word) = f" by (rule unat_frame [OF f d(2)])
    have e1: "(pte_pfn p = of_nat f) = (f = unat (pte_pfn p))" using uf by auto
    show ?thesis
    proof (cases "f = unat (pte_pfn p)")
      case True
      with tot [of "of_nat f"] e1 I [OF f] nz d(3) o(2) show ?thesis
        by (simp add: s' unat_minus_one)
    next
      case False
      with tot [of "of_nat f"] e1 I [OF f] show ?thesis by (simp add: s')
    qed
  qed
  then show ?thesis using d(3) by (simp add: refcount_inv_iff s')
qed

lemma nr_mappings_new_directory:
  assumes "oi < length pt" and "pt ! oi = None"
  shows "nr_mappings (pt[oi := Some d]) f = nr_mappings pt f + length (filter (maps_frame f) d)"
  using sum_list_map_update [OF assms(1), of "dir_mappings f" "Some d"] assms(2)
  by (simp add: nr_mappings_sum dir_mappings_def)

text \<open>
  \<^verbatim>\<open>alloc_page\<close> keeps the agreement when the page is not mapped yet and the
  block for a new directory holds no valid entry.
\<close>

lemma alloc_page_refcount_inv:
  assumes wf: "wf_state N F s" and inv: "refcount_inv s" and vpn: "unat vpn < N * N"
    and unmapped: "\<forall>p. pte_at N (pagetable (procs s ! ptbr s)) vpn = Some p \<longrightarrow> \<not> pte_valid p"
    and junk: "pagetable (procs s ! ptbr s) ! (unat vpn div N) = None \<longrightarrow>
                 length junk = N \<and> (\<forall>e \<in> set junk. \<not> pte_valid e)"
    and res: "alloc_page N F junk s vpn rw = Inr (r, s')"
  shows "refcount_inv s'"
proof (cases "find_free_frame F (mapcounts s) 0")
  case (Inl e)
  note d = wf_stateD [OF wf]
  from find_free_frame_spec [of F "mapcounts s" 0] d(3) Inl show ?thesis by simp
next
  case (Inr found)
  note d = wf_stateD [OF wf]
  from vpn have ix: "unat vpn div N < N" "unat vpn mod N < N" using vpn_indices by blast+
  have oi: "unat vpn div N < length (pagetable (procs s ! ptbr s))" using d(6) ix(1) by simp
  show ?thesis
  proof (cases found)
    case None
    with Inr alloc_page_none [OF wf vpn, of junk rw] res inv show ?thesis by simp
  next
    case (Some k)
    from find_free_frame_spec [of F "mapcounts s" 0] d(3) Inr Some
    have k: "k < F" "mapcounts s ! k = 0" by simp_all
    have uk: "unat (of_nat k :: 32 word) = k" by (rule unat_frame [OF k(1) d(2)])
    from junk have junk': "pagetable (procs s ! ptbr s) ! (unat vpn div N) = None \<longrightarrow> length junk = N"
      by simp
    let ?d = "case pagetable (procs s ! ptbr s) ! (unat vpn div N) of None \<Rightarrow> junk | Some d \<Rightarrow> d"
    let ?new = "(?d ! (unat vpn mod N))\<lparr>pte_valid := True, pte_rw := rw, pte_private := rw, pte_pfn := of_nat k\<rparr>"
    let ?pt' = "(pagetable (procs s ! ptbr s))[unat vpn div N := Some (?d[unat vpn mod N := ?new])]"
    from alloc_page_found [OF wf vpn junk', of k rw] Inr Some res k
    have s': "s' = s\<lparr>procs := (procs s)[ptbr s := (procs s ! ptbr s)\<lparr>pagetable := ?pt'\<rparr>],
                    mapcounts := (mapcounts s)[k := 1]\<rparr>"
      by simp
    have len: "unat vpn mod N < length ?d"
      using d(7) [OF ix(1)] junk' ix(2) by (simp split: option.splits)
    have newmap: "maps_frame f ?new = (f = of_nat k)" for f
      by (auto simp: maps_frame_def)
    have nr: "nr_mappings ?pt' f = nr_mappings (pagetable (procs s ! ptbr s)) f + (if f = of_nat k then 1 else 0)" for f
    proof (cases "pagetable (procs s ! ptbr s) ! (unat vpn div N)")
      case None
      with junk have clean: "\<forall>e \<in> set junk. \<not> pte_valid e" and jl: "unat vpn mod N < length junk"
        using ix(2) by simp_all
      from clean have z: "filter (maps_frame f) junk = []"
        by (simp add: filter_empty_conv maps_frame_def)
      from clean jl have "\<not> maps_frame f (junk ! (unat vpn mod N))"
        by (simp add: maps_frame_def)
      with count_update [OF jl, of "maps_frame f" ?new] z None newmap [of f]
      have "length (filter (maps_frame f) (?d[unat vpn mod N := ?new])) = (if f = of_nat k then 1 else 0)"
        by (simp split: if_splits)
      with nr_mappings_new_directory [OF oi None, of "?d[unat vpn mod N := ?new]" f] None
      show ?thesis by simp
    next
      case (Some dir)
      with len oi have "pte_at N (pagetable (procs s ! ptbr s)) vpn = Some (dir ! (unat vpn mod N))"
        by (simp add: pte_at_def)
      with unmapped have "\<not> maps_frame f (dir ! (unat vpn mod N))" by (simp add: maps_frame_def)
      with nr_mappings_update [OF oi Some, of "unat vpn mod N" ?new f] len Some newmap [of f]
      show ?thesis by (simp split: if_splits)
    qed
    have tot: "total_mappings (procs s') f = total_mappings (procs s) f + (if f = of_nat k then 1 else 0)" for f
      using total_mappings_update [OF d(4), of ?pt' f] nr [of f] by (simp add: s')
    from inv have I: "\<And>f. f < F \<Longrightarrow> unat (mapcounts s ! f) = total_mappings (procs s) (of_nat f)"
      using d(3) by (simp add: refcount_inv_iff)
    have "unat (mapcounts s' ! f) = total_mappings (procs s') (of_nat f)" if f: "f < F" for f
    proof -
      have uf: "unat (of_nat f :: 32 word) = f" by (rule unat_frame [OF f d(2)])
      have e2: "(of_nat f = (of_nat k :: 32 word)) = (f = k)" using uf uk by metis
      from tot [of "of_nat f"] e2 I [OF f] k d(3) show ?thesis
        by (cases "f = k") (simp_all add: s')
    qed
    then show ?thesis using d(3) by (simp add: refcount_inv_iff s')
  qed
qed

lemma maps_frame_downgrade: "maps_frame f (cow_downgrade p) = maps_frame f p"
  by (simp add: maps_frame_def)

lemma nr_mappings_downgrade:
  "nr_mappings (map (map_option (map cow_downgrade)) pt) f = nr_mappings pt f"
proof -
  have "dir_mappings f (map_option (map cow_downgrade) d) = dir_mappings f d" for d
    by (cases d) (simp_all add: dir_mappings_def filter_map comp_def maps_frame_downgrade)
  then show ?thesis by (simp add: nr_mappings_sum comp_def)
qed

lemma total_mappings_append:
  "total_mappings (ps @ [c]) f = total_mappings ps f + nr_mappings (pagetable c) f"
  by (simp add: total_mappings_def)

lemma total_mappings_pagetables:
  "total_mappings ps f = sum_list (map (\<lambda>pt. nr_mappings pt f) (map pagetable ps))"
  by (simp add: total_mappings_def comp_def)

lemma refcount_inv_same_pages:
  assumes "same_pages s s'" and "refcount_inv s"
  shows "refcount_inv s'"
proof -
  from assms(1) have "total_mappings (procs s') f = total_mappings (procs s) f" for f
    by (simp add: total_mappings_pagetables same_pages_def)
  with assms show ?thesis by (simp add: refcount_inv_iff same_pages_def)
qed

lemma refcount_inv_pointers:
  "refcount_inv (s\<lparr>current := c, ptbr := b\<rparr>) = refcount_inv s"
  by (simp add: refcount_inv_iff)

text \<open>
  \<^verbatim>\<open>switch_process\<close> keeps the agreement on each of its three paths, the fork
  under the provisos that the block for the child holds null pointers and that
  no counter wraps around.
\<close>

lemma switch_process_refcount_inv:
  assumes wf: "wf_state N F s" and inv: "refcount_inv s"
    and junk: "length (pagetable junk) = N" "\<forall>d \<in> set (pagetable junk). d = None"
    and frames: "\<forall>e \<in> set (ptes_of (pagetable (procs s ! current s))).
                   pte_valid e \<longrightarrow> unat (pte_pfn e) < F"
    and room: "\<forall>f < F. total_mappings (procs s) (of_nat f)
                 + nr_mappings (pagetable (procs s ! current s)) (of_nat f) < 2 ^ 32"
    and res: "switch_process poison junk s p = Inr s'"
  shows "refcount_inv s'"
proof -
  note d = wf_stateD [OF wf]
  let ?s1 = "s\<lparr>tlb := map tlb_flush (tlb s)\<rparr>"
  have s1: "same_pages s ?s1 \<or> True" by simp
  from inv have inv1: "refcount_inv ?s1" by (simp add: refcount_inv_iff)
  from inv have I: "\<And>f. f < F \<Longrightarrow> unat (mapcounts s ! f) = total_mappings (procs s) (of_nat f)"
    using d(3) by (simp add: refcount_inv_iff)
  show ?thesis
  proof (cases "find_pid (Suc (length (procs s))) ?s1 (next (processes s)) p")
    case (Inl e)
    with res show ?thesis by (simp add: switch_process_def Let_def del: find_pid.simps)
  next
    case (Inr found)
    show ?thesis
    proof (cases found)
      case (Some a)
      with Inr find_pid_Some have a: "a < length (procs s)" "pid (procs s ! a) = p"
        by fastforce+
      show ?thesis
      proof (cases "list_add_tail ?s1 (Node (current s)) Head")
        case bad: (Inl e)
        with Inr Some res show ?thesis by (simp add: switch_process_def Let_def del: find_pid.simps)
      next
        case ok: (Inr s2)
        note sp = list_add_tail_same_pages [OF ok]
        from same_pages_nth [OF sp, of a] a same_pages_length [OF sp]
        have a2: "a < length (procs s2)" "pid (procs s2 ! a) = p" by simp_all
        with Inr Some ok res have del: "list_del poison (s2\<lparr>current := a, ptbr := a\<rparr>) (Node a) = Inr s'"
          by (simp add: switch_process_def Let_def del: find_pid.simps)
        from refcount_inv_same_pages [OF sp inv1] have "refcount_inv (s2\<lparr>current := a, ptbr := a\<rparr>)"
          by (simp add: refcount_inv_pointers)
        with list_del_same_pages [OF del] show ?thesis by (rule refcount_inv_same_pages)
      qed
    next
      case None
      show ?thesis
      proof (cases "pid (procs s ! current s) = p")
        case True
        with Inr None res d(4,5) have del: "list_del poison ?s1 (Node (current s)) = Inr s'"
          by (simp add: switch_process_def Let_def del: find_pid.simps)
        from list_del_same_pages [OF del] inv1 show ?thesis by (rule refcount_inv_same_pages)
      next
        case False
        let ?pt = "pagetable (procs s ! current s)"
        let ?pt' = "map (map_option (map cow_downgrade)) ?pt"
        from d(5,6) junk(1) have len: "length (pagetable junk) = length ?pt" by simp
        from frames d(3) have fr: "\<forall>e \<in> set (ptes_of ?pt). pte_valid e \<longrightarrow> unat (pte_pfn e) < length (mapcounts s)"
          by simp
        from fork_outer_spec [OF len fr] d(3) child_table_clean [OF len junk(2)] obtain mc' where mc':
          "fork_outer ?pt (pagetable junk) (mapcounts s) = Inr (?pt', ?pt', mc')"
          "length mc' = F"
          "\<forall>f. unat f < F \<longrightarrow> mc' ! unat f = mapcounts s ! unat f + of_nat (nr_mappings ?pt f)"
          by auto
        define s3 where "s3 = ?s1\<lparr>procs := list_update (procs s) (current s)
              ((procs s ! current s)\<lparr>pagetable := ?pt'\<rparr>) @ [junk\<lparr>pid := p, pagetable := ?pt'\<rparr>],
            mapcounts := mc'\<rparr>"
        from Inr None False res d(4,5) mc'(1) obtain s4 where s4:
          "list_add_tail s3 (Node (current s)) Head = Inr s4"
          "s' = s4\<lparr>current := length (procs s), ptbr := length (procs s)\<rparr>"
          by (auto simp: switch_process_def Let_def s3_def simp del: find_pid.simps split: sum.splits)
        have tot: "total_mappings (procs s3) f = total_mappings (procs s) f + nr_mappings ?pt f" for f
          using total_mappings_update [OF d(4) [unfolded d(5)], of ?pt' f]
          by (simp add: s3_def total_mappings_append nr_mappings_downgrade)
        have "unat (mapcounts s3 ! f) = total_mappings (procs s3) (of_nat f)" if f: "f < F" for f
        proof -
          have uf: "unat (of_nat f :: 32 word) = f" by (rule unat_frame [OF f d(2)])
          from mc'(3) uf f have m: "mc' ! f = mapcounts s ! f + of_nat (nr_mappings ?pt (of_nat f))"
            by metis
          from room f I [OF f] have lt: "unat (mapcounts s ! f) + nr_mappings ?pt (of_nat f) < 2 ^ 32"
            by simp
          then have small: "nr_mappings ?pt (of_nat f) < 2 ^ 32" by simp
          then have un: "unat (of_nat (nr_mappings ?pt (of_nat f)) :: 32 word) = nr_mappings ?pt (of_nat f)"
            by (simp add: unat_of_nat)
          with lt have "unat (mapcounts s ! f + of_nat (nr_mappings ?pt (of_nat f)))
              = unat (mapcounts s ! f) + nr_mappings ?pt (of_nat f)"
            using unat_add_lem [of "mapcounts s ! f" "of_nat (nr_mappings ?pt (of_nat f)) :: 32 word"]
            by simp
          with m I [OF f] tot [of "of_nat f"] show ?thesis by (simp add: s3_def)
        qed
        then have "refcount_inv s3" using mc'(2) by (simp add: refcount_inv_iff s3_def)
        from refcount_inv_same_pages [OF list_add_tail_same_pages [OF s4(1)] this]
        show ?thesis by (simp add: s4(2) refcount_inv_pointers)
      qed
    qed
  qed
qed

end
